theory Spec2Isabelle
  imports Main "HOL-Library.AList" "HOL-Library.Sublist"
begin

section \<open>Characters and the string methods of Python that the program uses\<close>

text \<open>
  The program works on Python \<open>str\<close> values. A character of the type \<open>char\<close> stands for the
  code point of its number, so that a \<open>string\<close> is a text of code points below 256. The
  classes \<open>\w\<close> and \<open>\s\<close> of a \<open>str\<close> pattern are the Unicode classes; on these code points
  they are \<open>is_word_char\<close> and \<open>is_space\<close> below. The passes that follow the replacement of
  the words are defined further down for any type of characters and any such classes, so
  that what is proved of them holds for text of all of Unicode. The case conversions
  change the ASCII letters, which are the letters of every word that the program matches.
\<close>

definition is_upper :: "char \<Rightarrow> bool" where
  "is_upper c = (65 \<le> (of_char c :: nat) \<and> (of_char c :: nat) \<le> 90)"

definition is_lower :: "char \<Rightarrow> bool" where
  "is_lower c = (97 \<le> (of_char c :: nat) \<and> (of_char c :: nat) \<le> 122)"

text \<open>The character class \<open>[a-zA-Z]\<close>.\<close>

definition is_letter :: "char \<Rightarrow> bool" where
  "is_letter c = (is_upper c \<or> is_lower c)"

text \<open>The class \<open>[0-9]\<close>, which is also \<open>\d\<close> below 256.\<close>

definition is_digit :: "char \<Rightarrow> bool" where
  "is_digit c = (48 \<le> (of_char c :: nat) \<and> (of_char c :: nat) \<le> 57)"

text \<open>
  The class \<open>\w\<close>: the alphanumeric characters (\<open>str.isalnum\<close>) and the underscore. Below
  256 these are the ASCII letters and digits, the underscore, the two ordinal indicators
  (170, 186), the micro sign (181), the superscript digits (178, 179, 185), the three
  fractions (188 to 190) and the letters 192 to 255 without the multiplication and division
  signs (215, 247).
\<close>

definition is_word_char :: "char \<Rightarrow> bool" where
  "is_word_char c =
     (is_letter c \<or> is_digit c \<or> (of_char c :: nat) = 95 \<or>
      (of_char c :: nat) = 170 \<or> (of_char c :: nat) = 178 \<or> (of_char c :: nat) = 179 \<or>
      (of_char c :: nat) = 181 \<or> (of_char c :: nat) = 185 \<or> (of_char c :: nat) = 186 \<or>
      (188 \<le> (of_char c :: nat) \<and> (of_char c :: nat) \<le> 190) \<or>
      (192 \<le> (of_char c :: nat) \<and> (of_char c :: nat) \<le> 214) \<or>
      (216 \<le> (of_char c :: nat) \<and> (of_char c :: nat) \<le> 246) \<or>
      248 \<le> (of_char c :: nat))"

text \<open>
  The class \<open>\s\<close>, which is also what \<open>str.strip\<close> removes (\<open>str.isspace\<close>): below 256 these
  are tab, line feed, vertical tab, form feed, carriage return, the four separators 28 to
  31, the space, the next-line control (133) and the no-break space (160).
\<close>

definition is_space :: "char \<Rightarrow> bool" where
  "is_space c = ((9 \<le> (of_char c :: nat) \<and> (of_char c :: nat) \<le> 13) \<or>
     (28 \<le> (of_char c :: nat) \<and> (of_char c :: nat) \<le> 32) \<or>
     (of_char c :: nat) = 133 \<or> (of_char c :: nat) = 160)"

text \<open>The class \<open>[A-Z0-9]\<close> of the book code.\<close>

definition is_code_char :: "char \<Rightarrow> bool" where
  "is_code_char c = (is_upper c \<or> is_digit c)"

text \<open>The class \<open>[.!?;:,]\<close> and the sentence delimiters \<open>[.!?]\<close>.\<close>

definition is_punct :: "char \<Rightarrow> bool" where
  "is_punct c = (c = CHR ''.'' \<or> c = CHR ''!'' \<or> c = CHR ''?'' \<or> c = CHR '';'' \<or>
     c = CHR '':'' \<or> c = CHR '','')"

definition is_sentence_end :: "char \<Rightarrow> bool" where
  "is_sentence_end c = (c = CHR ''.'' \<or> c = CHR ''!'' \<or> c = CHR ''?'')"

definition backslash :: char where
  "backslash = CHR 0x5C"

definition newline :: char where
  "newline = CHR 0x0A"

definition quote :: char where
  "quote = CHR 0x22"

definition lower_char :: "char \<Rightarrow> char" where
  "lower_char c = (if is_upper c then char_of (of_char c + (32::nat)) else c)"

definition upper_char :: "char \<Rightarrow> char" where
  "upper_char c = (if is_lower c then char_of (of_char c - (32::nat)) else c)"

text \<open>\<open>str.lower\<close>, \<open>str.upper\<close>, \<open>str.capitalize\<close> (first character upper case, the rest
  lower case) and \<open>str.isupper\<close> (at least one cased character, and no lower-case one).\<close>

definition lower :: "string \<Rightarrow> string" where
  "lower s = map lower_char s"

definition upper :: "string \<Rightarrow> string" where
  "upper s = map upper_char s"

definition capitalize :: "string \<Rightarrow> string" where
  "capitalize s = (case s of [] \<Rightarrow> [] | c # cs \<Rightarrow> upper_char c # map lower_char cs)"

definition isupper :: "string \<Rightarrow> bool" where
  "isupper s = (list_ex is_upper s \<and> \<not> list_ex is_lower s)"

text \<open>\<open>str.strip()\<close>: white space is removed at both ends.\<close>

definition strip :: "string \<Rightarrow> string" where
  "strip s = rev (dropWhile is_space (rev (dropWhile is_space s)))"

text \<open>The exception that the modelled code can raise.\<close>

datatype py_error = IndexError

section \<open>Regular-expression scanning\<close>

text \<open>
  \<open>re.sub\<close>, \<open>re.findall\<close> and \<open>re.finditer\<close> scan the subject from left to right. At a
  position that no earlier match covers the pattern is tried; a match is recorded and the scan
  goes on behind it, otherwise the scan moves one character on. A pattern is modelled by a
  matcher: given the text before the position (reversed, nearest character first) and the text
  from the position on, it returns the length of the match there, if any. Every pattern of
  this program matches at least one character. The counter of the scanning functions is the
  number of characters that the last match still covers.
\<close>

type_synonym 'c matcher = "'c list \<Rightarrow> 'c list \<Rightarrow> nat option"

fun finditer_from ::
  "'c matcher \<Rightarrow> nat \<Rightarrow> nat \<Rightarrow> 'c list \<Rightarrow> 'c list \<Rightarrow> (nat \<times> nat) list" where
  "finditer_from m covered pos pre [] = []"
| "finditer_from m (Suc k) pos pre (c # cs) = finditer_from m k (Suc pos) (c # pre) cs"
| "finditer_from m 0 pos pre (c # cs) =
     (case m pre (c # cs) of
        None \<Rightarrow> finditer_from m 0 (Suc pos) (c # pre) cs
      | Some n \<Rightarrow> (pos, pos + n) # finditer_from m (n - 1) (Suc pos) (c # pre) cs)"

text \<open>\<open>re.finditer(pattern, s)\<close>: the start and the end of every match.\<close>

definition finditer :: "'c matcher \<Rightarrow> 'c list \<Rightarrow> (nat \<times> nat) list" where
  "finditer m s = finditer_from m 0 0 [] s"

text \<open>\<open>re.findall(pattern, s)\<close> for a pattern without groups: the matched texts.\<close>

definition findall :: "'c matcher \<Rightarrow> 'c list \<Rightarrow> 'c list list" where
  "findall m s = map (\<lambda>(b, e). take (e - b) (drop b s)) (finditer m s)"

text \<open>\<open>re.sub(pattern, repl, s)\<close>, where \<open>repl\<close> computes the replacement from the matched
  text.\<close>

fun sub_from ::
  "'c matcher \<Rightarrow> ('c list \<Rightarrow> 'c list) \<Rightarrow> nat \<Rightarrow> 'c list \<Rightarrow> 'c list \<Rightarrow> 'c list" where
  "sub_from m repl covered pre [] = []"
| "sub_from m repl (Suc k) pre (c # cs) = sub_from m repl k (c # pre) cs"
| "sub_from m repl 0 pre (c # cs) =
     (case m pre (c # cs) of
        None \<Rightarrow> c # sub_from m repl 0 (c # pre) cs
      | Some n \<Rightarrow> repl (take n (c # cs)) @ sub_from m repl (n - 1) (c # pre) cs)"

definition re_sub :: "'c matcher \<Rightarrow> ('c list \<Rightarrow> 'c list) \<Rightarrow> 'c list \<Rightarrow> 'c list" where
  "re_sub m repl s = sub_from m repl 0 [] s"

text \<open>The word boundary \<open>\b\<close>: exactly one of the two neighbours is a word character.\<close>

definition word_boundary :: "string \<Rightarrow> string \<Rightarrow> bool" where
  "word_boundary pre suf =
     ((case pre of [] \<Rightarrow> False | p # _ \<Rightarrow> is_word_char p) \<noteq>
      (case suf of [] \<Rightarrow> False | c # _ \<Rightarrow> is_word_char c))"

text \<open>
  \<open>\b[a-zA-Z]+\b\<close>. The run of letters is taken greedily; a shorter run would end between two
  letters, where there is no boundary, so only the whole run can match.
\<close>

definition word_matcher :: "char matcher" where
  "word_matcher pre suf =
     (let run = takeWhile is_letter suf in
      if run \<noteq> [] \<and> word_boundary pre suf \<and>
         word_boundary (rev run @ pre) (drop (length run) suf)
      then Some (length run) else None)"

section \<open>Vocabulary extraction\<close>

text \<open>
  One entry of the vocabulary: the dictionary with the keys \<open>'original'\<close>,
  \<open>'preserve_caps'\<close> and \<open>'count'\<close>. A Python \<open>dict\<close> keeps its keys in insertion order, and
  \<open>create_lexicon\<close> depends on that order, so a dictionary is an association list:
  \<open>map_of\<close> looks a key up, and \<open>AList.update\<close> overwrites the value of a key in place or
  appends a new key at the end.
\<close>

record word_info =
  original :: string
  preserve_caps :: bool
  count :: int

type_synonym vocabulary = "(string \<times> word_info) list"

text \<open>
  \<open>\\[a-zA-Z]+[0-9]*\s*(?:\d+\s*)?\<close>: a backslash, letters, then digits, white space and a
  numeric argument with its white space, each taken greedily when present.
\<close>

definition tag_matcher :: "char matcher" where
  "tag_matcher pre suf =
     (case suf of
        [] \<Rightarrow> None
      | c # cs \<Rightarrow>
          if c = backslash \<and> takeWhile is_letter cs \<noteq> [] then
            let r1 = dropWhile is_letter cs;
                r2 = dropWhile is_digit r1;
                r3 = dropWhile is_space r2;
                r4 = (if takeWhile is_digit r3 \<noteq> []
                      then dropWhile is_space (dropWhile is_digit r3) else r3)
            in Some (length suf - length r4)
          else None)"

text \<open>\<open>re.split(r'[.!?]+', s)\<close>: the pieces between the runs of delimiters; \<open>cur\<close> is the
  piece being read (reversed) and \<open>in_run\<close> tells that the last character was a delimiter.\<close>

fun split_from :: "string \<Rightarrow> bool \<Rightarrow> string \<Rightarrow> string list" where
  "split_from cur in_run [] = [rev cur]"
| "split_from cur in_run (c # cs) =
     (if is_sentence_end c
      then (if in_run then split_from cur True cs else rev cur # split_from [] True cs)
      else split_from (c # cur) False cs)"

definition split_sentences :: "string \<Rightarrow> string list" where
  "split_sentences s = split_from [] False s"

text \<open>
  The body of the loop over the words of a sentence (lines 27 to 52): \<open>i\<close> is the position
  of the word in its sentence. \<open>word[0]\<close> cannot raise, since a match of \<open>[a-zA-Z]+\<close> is
  not empty.
\<close>

definition first_isupper :: "string \<Rightarrow> bool" where
  "first_isupper word = (case word of [] \<Rightarrow> False | c # _ \<Rightarrow> is_upper c)"

definition classify :: "nat \<Rightarrow> string \<Rightarrow> bool" where
  "classify i word =
     (if first_isupper word \<and> i > 0 then True
      else if isupper word \<and> length word > 1 then True
      else False)"

definition record_word :: "nat \<times> string \<Rightarrow> vocabulary \<Rightarrow> vocabulary" where
  "record_word iw vocabulary =
     (let word = snd iw; word_lower = lower word; caps = classify (fst iw) word in
      case map_of vocabulary word_lower of
        None \<Rightarrow>
          AList.update word_lower
            \<lparr>original = (if caps then word else word_lower), preserve_caps = caps, count = 1\<rparr>
            vocabulary
      | Some info \<Rightarrow>
          let counted = info\<lparr>count := count info + 1\<rparr> in
          AList.update word_lower
            (if caps \<and> \<not> preserve_caps counted
             then counted\<lparr>original := word, preserve_caps := True\<rparr> else counted)
            vocabulary)"

definition record_sentence :: "string \<Rightarrow> vocabulary \<Rightarrow> vocabulary" where
  "record_sentence sentence vocabulary =
     fold record_word (enumerate 0 (findall word_matcher (strip sentence))) vocabulary"

text \<open>\<open>extract_vocabulary_from_usfm\<close>, applied to the content of the file.\<close>

definition extract_vocabulary_from_usfm :: "string \<Rightarrow> vocabulary" where
  "extract_vocabulary_from_usfm content =
     (let text_only = re_sub tag_matcher (\<lambda>_. '' '') content;
          sentences = split_sentences text_only
      in fold record_sentence sentences [])"

section \<open>Merging the vocabularies of the files\<close>

text \<open>The loop of \<open>process_usfm_directory\<close> over the entries of one file's vocabulary
  (lines 181 to 189), and the loop over the files around it.\<close>

definition merge_entry :: "string \<times> word_info \<Rightarrow> vocabulary \<Rightarrow> vocabulary" where
  "merge_entry entry all_vocabulary =
     (let word_lower = fst entry; info = snd entry in
      case map_of all_vocabulary word_lower of
        Some cur \<Rightarrow>
          let summed = cur\<lparr>count := count cur + count info\<rparr> in
          AList.update word_lower
            (if preserve_caps info \<and> \<not> preserve_caps summed
             then summed\<lparr>original := original info, preserve_caps := True\<rparr> else summed)
            all_vocabulary
      | None \<Rightarrow> AList.update word_lower info all_vocabulary)"

definition merge_file_vocabulary :: "vocabulary \<Rightarrow> vocabulary \<Rightarrow> vocabulary" where
  "merge_file_vocabulary file_vocab all_vocabulary = fold merge_entry file_vocab all_vocabulary"

definition merge_vocabularies :: "vocabulary list \<Rightarrow> vocabulary" where
  "merge_vocabularies file_vocabs = fold merge_file_vocabulary file_vocabs []"

section \<open>Token generation\<close>

text \<open>
  The module-level random generator is made explicit: \<open>rnd k\<close> is the number that the
  \<open>k\<close>-th call of \<open>random.choice\<close> draws, and \<open>random.choice(seq)\<close> returns the element at
  that number modulo the length of \<open>seq\<close>; on an empty sequence it raises \<open>IndexError\<close>.
\<close>

type_synonym rng = "nat \<Rightarrow> nat"

definition random_choice :: "rng \<Rightarrow> nat \<Rightarrow> 'a list \<Rightarrow> py_error + 'a" where
  "random_choice rnd k seq =
     (if seq = [] then Inl IndexError else Inr (seq ! (rnd k mod length seq)))"

text \<open>\<open>''.join(random.choice(char_list) for _ in range(4))\<close>, with the draws \<open>k\<close> to
  \<open>k + 3\<close>; the first choice raises when \<open>char_list\<close> is empty.\<close>

definition random_word :: "rng \<Rightarrow> nat \<Rightarrow> string \<Rightarrow> py_error + string" where
  "random_word rnd k char_list =
     (case random_choice rnd k char_list of
        Inl e \<Rightarrow> Inl e
      | Inr _ \<Rightarrow> Inr (map (\<lambda>j. char_list ! (rnd (k + j) mod length char_list)) [0..<4]))"

text \<open>\<open>words.add(word)\<close>. The set \<open>words\<close> is kept as a list without repetitions, in the
  order of insertion; Python leaves the order of \<open>list(words)\<close> open.\<close>

definition set_add :: "string \<Rightarrow> string list \<Rightarrow> string list" where
  "set_add word words = (if word \<in> set words then words else words @ [word])"

text \<open>The loop \<open>while len(words) < num_words\<close>; \<open>k\<close> counts the draws made so far. The
  loop need not end: not returning is the value \<open>None\<close>.\<close>

partial_function (option) generate_loop ::
  "rng \<Rightarrow> string \<Rightarrow> nat \<Rightarrow> nat \<Rightarrow> string list \<Rightarrow> (py_error + string list) option" where
  "generate_loop rnd char_list num_words k words =
     (if length words < num_words then
        (case random_word rnd k char_list of
           Inl e \<Rightarrow> Some (Inl e)
         | Inr word \<Rightarrow> generate_loop rnd char_list num_words (k + 4) (set_add word words))
      else Some (Inr words))"

text \<open>The warning that is printed: the requested number and the possible maximum.\<close>

datatype warning = TooManyWords nat nat

definition strip_brackets :: "string \<Rightarrow> string" where
  "strip_brackets chars =
     (if chars \<noteq> [] \<and> hd chars = CHR ''['' \<and> last chars = CHR '']''
      then butlast (tl chars) else chars)"

text \<open>
  \<open>generate_unique_nonsense_words\<close>. The result holds the warnings printed and the list
  returned. The requested number is a length (\<open>len(all_vocabulary)\<close>), hence a natural number.
\<close>

definition generate_unique_nonsense_words ::
  "rng \<Rightarrow> string \<Rightarrow> nat \<Rightarrow> (py_error + warning list \<times> string list) option" where
  "generate_unique_nonsense_words rnd chars num_words =
     (let char_list = strip_brackets chars;
          max_possible = length char_list ^ 4;
          printed = (if num_words > max_possible
                     then [TooManyWords num_words max_possible] else []);
          wanted = (if num_words > max_possible then max_possible else num_words)
      in case generate_loop rnd char_list wanted 0 [] of
           None \<Rightarrow> None
         | Some (Inl e) \<Rightarrow> Some (Inl e)
         | Some (Inr words) \<Rightarrow> Some (Inr (printed, words)))"

section \<open>The lexicon\<close>

type_synonym lexicon = "(string \<times> string) list"

text \<open>
  The loop of \<open>create_lexicon\<close> over the sorted entries: \<open>i\<close> is the index of the entry and
  \<open>k\<close> counts the draws. \<open>nonsense_words[0]\<close> raises \<open>IndexError\<close> on an empty list, and so
  does \<open>random.choice\<close> on an empty first token.
\<close>

fun assign_tokens ::
  "rng \<Rightarrow> nat \<Rightarrow> string list \<Rightarrow> nat \<Rightarrow> (string \<times> word_info) list \<Rightarrow> lexicon \<Rightarrow>
   py_error + lexicon" where
  "assign_tokens rnd k nonsense_words i [] lexicon = Inr lexicon"
| "assign_tokens rnd k nonsense_words i ((word_lower, word_info) # rest) lexicon =
     (if i < length nonsense_words then
        assign_tokens rnd k nonsense_words (Suc i) rest
          (AList.update word_lower (nonsense_words ! i) lexicon)
      else
        (case nonsense_words of
           [] \<Rightarrow> Inl IndexError
         | first # _ \<Rightarrow>
             (case random_word rnd k first of
                Inl e \<Rightarrow> Inl e
              | Inr additional_word \<Rightarrow>
                  assign_tokens rnd (k + 4) nonsense_words (Suc i) rest
                    (AList.update word_lower additional_word lexicon))))"

text \<open>
  \<open>vocab_items.sort(key=..., reverse=True)\<close> is a stable sort by descending count: entries
  of equal count keep the order of the dictionary. \<open>sort_key\<close> is a stable insertion sort;
  the key is negated for the descending order.
\<close>

definition sort_by_count :: "vocabulary \<Rightarrow> (string \<times> word_info) list" where
  "sort_by_count vocabulary = sort_key (\<lambda>item. - count (snd item)) vocabulary"

definition create_lexicon :: "rng \<Rightarrow> vocabulary \<Rightarrow> string list \<Rightarrow> py_error + lexicon" where
  "create_lexicon rnd vocabulary nonsense_words =
     assign_tokens rnd 0 nonsense_words 0 (sort_by_count vocabulary) []"

section \<open>Rewriting a document\<close>

text \<open>\<open>\\id\s+\<close>, searched in the text before a word.\<close>

definition id_tag_matcher :: "char matcher" where
  "id_tag_matcher pre suf =
     (case suf of
        a # b # c # rest \<Rightarrow>
          if a = backslash \<and> b = CHR ''i'' \<and> c = CHR ''d'' \<and> takeWhile is_space rest \<noteq> []
          then Some (3 + length (takeWhile is_space rest)) else None
      | _ \<Rightarrow> None)"

text \<open>The casing of the replacement: by the stored form (\<open>original[0]\<close> raises on an empty
  string), or by the occurrence itself.\<close>

definition case_by_original :: "string \<Rightarrow> string \<Rightarrow> py_error + string" where
  "case_by_original orig replacement =
     (case orig of
        [] \<Rightarrow> Inl IndexError
      | c # _ \<Rightarrow>
          let r1 = (if is_upper c then capitalize replacement else replacement);
              r2 = (if isupper orig then upper r1 else r1)
          in Inr r2)"

definition case_by_word :: "string \<Rightarrow> string \<Rightarrow> string" where
  "case_by_word word replacement =
     (if first_isupper word then capitalize replacement
      else if isupper word then upper replacement
      else replacement)"

text \<open>\<open>replace_word\<close>: \<open>start_pos\<close> is \<open>match.start()\<close> and \<open>word\<close> is \<open>match.group(0)\<close>.\<close>

definition replace_word ::
  "string \<Rightarrow> lexicon \<Rightarrow> vocabulary \<Rightarrow> nat \<Rightarrow> string \<Rightarrow> py_error + string" where
  "replace_word content lexicon vocabulary start_pos word =
     (let word_lower = lower word;
          preceding_text = take start_pos content;
          id_matches = finditer id_tag_matcher preceding_text
      in if id_matches \<noteq> [] \<and>
            newline \<notin> set (drop (snd (last id_matches)) preceding_text)
         then Inr word
         else
           (case map_of lexicon word_lower of
              None \<Rightarrow> Inr word
            | Some replacement \<Rightarrow>
                (case map_of vocabulary word_lower of
                   None \<Rightarrow> Inr (case_by_word word replacement)
                 | Some info \<Rightarrow>
                     if preserve_caps info then case_by_original (original info) replacement
                     else Inr (case_by_word word replacement))))"

text \<open>
  \<open>(?<!\\[a-zA-Z])\b[a-zA-Z]+\b\<close>: the look-behind refuses a position whose two preceding
  characters are a backslash and a letter.
\<close>

definition content_word_matcher :: "char matcher" where
  "content_word_matcher pre suf =
     (if (case pre of a # b # _ \<Rightarrow> is_letter a \<and> b = backslash | _ \<Rightarrow> False) then None
      else word_matcher pre suf)"

text \<open>\<open>re.sub\<close> with a function as replacement: it is called with the start and the text of
  each match, and an exception it raises ends the substitution.\<close>

fun sub_call_from ::
  "'c matcher \<Rightarrow> (nat \<Rightarrow> 'c list \<Rightarrow> py_error + 'c list) \<Rightarrow> nat \<Rightarrow> nat \<Rightarrow> 'c list \<Rightarrow>
   'c list \<Rightarrow> py_error + 'c list" where
  "sub_call_from m f covered pos pre [] = Inr []"
| "sub_call_from m f (Suc k) pos pre (c # cs) = sub_call_from m f k (Suc pos) (c # pre) cs"
| "sub_call_from m f 0 pos pre (c # cs) =
     (case m pre (c # cs) of
        None \<Rightarrow>
          (case sub_call_from m f 0 (Suc pos) (c # pre) cs of
             Inl e \<Rightarrow> Inl e
           | Inr out \<Rightarrow> Inr (c # out))
      | Some n \<Rightarrow>
          (case f pos (take n (c # cs)) of
             Inl e \<Rightarrow> Inl e
           | Inr r \<Rightarrow>
               (case sub_call_from m f (n - 1) (Suc pos) (c # pre) cs of
                  Inl e \<Rightarrow> Inl e
                | Inr out \<Rightarrow> Inr (r @ out))))"

definition re_sub_call ::
  "'c matcher \<Rightarrow> (nat \<Rightarrow> 'c list \<Rightarrow> py_error + 'c list) \<Rightarrow> 'c list \<Rightarrow>
   py_error + 'c list" where
  "re_sub_call m f s = sub_call_from m f 0 0 [] s"

text \<open>
  The passes that follow the replacement of the words use the classes \<open>\w\<close>, \<open>\s\<close>,
  \<open>[.!?;:,]\<close> and \<open>[A-Z0-9]\<close> and six characters. They are defined for any type of
  characters, given these classes and characters; \<open>python_chars\<close> gives them for the code
  points below 256.
\<close>

record 'c char_classes =
  cls_word :: "'c \<Rightarrow> bool"
  cls_space :: "'c \<Rightarrow> bool"
  cls_punct :: "'c \<Rightarrow> bool"
  cls_code :: "'c \<Rightarrow> bool"
  chr_backslash :: 'c
  chr_newline :: 'c
  chr_quote :: 'c
  chr_space :: 'c
  chr_i :: 'c
  chr_d :: 'c

definition python_chars :: "char char_classes" where
  "python_chars =
     \<lparr>cls_word = is_word_char, cls_space = is_space, cls_punct = is_punct,
      cls_code = is_code_char, chr_backslash = backslash, chr_newline = newline,
      chr_quote = quote, chr_space = CHR '' '', chr_i = CHR ''i'', chr_d = CHR ''d''\<rparr>"

text \<open>
  \<open>\\id\s+([A-Z0-9]+).*\<close> with the replacement \<open>\\id \1\<close>: white space and the code are taken
  greedily, and \<open>.*\<close> runs to the end of the line.
\<close>

definition id_line_matcher :: "'c char_classes \<Rightarrow> 'c matcher" where
  "id_line_matcher U pre suf =
     (case suf of
        a # b # c # rest \<Rightarrow>
          if a = chr_backslash U \<and> b = chr_i U \<and> c = chr_d U \<and>
             takeWhile (cls_space U) rest \<noteq> [] \<and>
             takeWhile (cls_code U) (dropWhile (cls_space U) rest) \<noteq> []
          then Some (length suf - length (dropWhile (\<lambda>x. x \<noteq> chr_newline U)
                  (dropWhile (cls_code U) (dropWhile (cls_space U) rest))))
          else None
      | _ \<Rightarrow> None)"

definition id_line_repl :: "'c char_classes \<Rightarrow> 'c list \<Rightarrow> 'c list" where
  "id_line_repl U matched =
     chr_backslash U # chr_i U # chr_d U # chr_space U #
       takeWhile (cls_code U) (dropWhile (cls_space U) (drop 3 matched))"

definition clean_id_lines :: "'c char_classes \<Rightarrow> 'c list \<Rightarrow> 'c list" where
  "clean_id_lines U s = re_sub (id_line_matcher U) (id_line_repl U) s"

text \<open>
  The four spacing substitutions match two adjacent characters, the first in one class and
  the second in another, and put a space between them: \<open>(\w)([.!?;:,])\<close> and
  \<open>([.!?;:,])(\w)\<close> with \<open>\1 \2\<close>, \<open>"(\w)\<close> with \<open>" \1\<close>, and \<open>(\w)\\\<close> with \<open>\1 \\\<close>.
\<close>

definition pair_matcher :: "('c \<Rightarrow> bool) \<Rightarrow> ('c \<Rightarrow> bool) \<Rightarrow> 'c matcher" where
  "pair_matcher p q pre suf =
     (case suf of a # b # _ \<Rightarrow> if p a \<and> q b then Some 2 else None | _ \<Rightarrow> None)"

definition space_between :: "'c \<Rightarrow> 'c list \<Rightarrow> 'c list" where
  "space_between sp matched = (case matched of [] \<Rightarrow> [] | a # rest \<Rightarrow> a # sp # rest)"

definition space_before_punctuation :: "'c char_classes \<Rightarrow> 'c list \<Rightarrow> 'c list" where
  "space_before_punctuation U s =
     re_sub (pair_matcher (cls_word U) (cls_punct U)) (space_between (chr_space U)) s"

definition space_after_punctuation :: "'c char_classes \<Rightarrow> 'c list \<Rightarrow> 'c list" where
  "space_after_punctuation U s =
     re_sub (pair_matcher (cls_punct U) (cls_word U)) (space_between (chr_space U)) s"

definition space_after_quotes :: "'c char_classes \<Rightarrow> 'c list \<Rightarrow> 'c list" where
  "space_after_quotes U s =
     re_sub (pair_matcher (\<lambda>c. c = chr_quote U) (cls_word U)) (space_between (chr_space U)) s"

definition space_before_backslash :: "'c char_classes \<Rightarrow> 'c list \<Rightarrow> 'c list" where
  "space_before_backslash U s =
     re_sub (pair_matcher (cls_word U) (\<lambda>c. c = chr_backslash U))
       (space_between (chr_space U)) s"

text \<open>The four spacing substitutions in the order of the source, and all the passes that
  follow the replacement of the words.\<close>

definition spacing_passes :: "'c char_classes \<Rightarrow> 'c list \<Rightarrow> 'c list" where
  "spacing_passes U s =
     space_before_backslash U (space_after_quotes U
       (space_after_punctuation U (space_before_punctuation U s)))"

definition fix_up_passes :: "'c char_classes \<Rightarrow> 'c list \<Rightarrow> 'c list" where
  "fix_up_passes U s = spacing_passes U (clean_id_lines U s)"

definition transform_usfm_content ::
  "string \<Rightarrow> lexicon \<Rightarrow> vocabulary \<Rightarrow> py_error + string" where
  "transform_usfm_content content lexicon vocabulary =
     (case re_sub_call content_word_matcher (replace_word content lexicon vocabulary) content of
        Inl e \<Rightarrow> Inl e
      | Inr result \<Rightarrow> Inr (fix_up_passes python_chars result))"

section \<open>Predicates used in the statements\<close>

text \<open>
  An entry of a vocabulary is well formed when the lower-case form of its stored form is its
  key, and the stored form is the key itself unless the capitalization is preserved.
\<close>

definition entry_ok :: "string \<times> word_info \<Rightarrow> bool" where
  "entry_ok entry =
     (lower (original (snd entry)) = fst entry \<and>
      (\<not> preserve_caps (snd entry) \<longrightarrow> original (snd entry) = fst entry))"

definition vocabulary_ok :: "vocabulary \<Rightarrow> bool" where
  "vocabulary_ok v = list_all entry_ok v"

text \<open>
  What a spacing substitution computes, as a direct recursion: the character \<open>sp\<close> is put
  between two adjacent characters of which the first satisfies \<open>p\<close> and the second \<open>q\<close>, and
  the scan goes on behind the second.
\<close>

fun insert_spaces :: "'c \<Rightarrow> ('c \<Rightarrow> bool) \<Rightarrow> ('c \<Rightarrow> bool) \<Rightarrow> 'c list \<Rightarrow> 'c list" where
  "insert_spaces sp p q (a # b # cs) =
     (if p a \<and> q b then a # sp # b # insert_spaces sp p q cs
      else a # insert_spaces sp p q (b # cs))"
| "insert_spaces sp p q cs = cs"

text \<open>
  \<open>t\<close> is \<open>s\<close> with spaces inserted (\<open>sp\<close> is the space): the characters of \<open>s\<close> occur in
  \<open>t\<close> in their order, and the two texts agree once their spaces are deleted.
\<close>

definition only_spaces_inserted :: "'c \<Rightarrow> 'c list \<Rightarrow> 'c list \<Rightarrow> bool" where
  "only_spaces_inserted sp s t =
     (subseq s t \<and> filter (\<lambda>c. c \<noteq> sp) t = filter (\<lambda>c. c \<noteq> sp) s)"

text \<open>
  A random source is fair for an alphabet of \<open>n\<close> characters when, from every iteration of
  the loop on, every four positions of the alphabet are drawn together in the four draws of
  some later iteration (iteration \<open>j\<close> makes the draws \<open>4 * j\<close> to \<open>4 * j + 3\<close>).
\<close>

definition fair_source :: "rng \<Rightarrow> nat \<Rightarrow> bool" where
  "fair_source rnd n =
     (\<forall>j i0 i1 i2 i3. i0 < n \<and> i1 < n \<and> i2 < n \<and> i3 < n \<longrightarrow>
        (\<exists>j'\<ge>j. rnd (4 * j') mod n = i0 \<and> rnd (4 * j' + 1) mod n = i1 \<and>
                 rnd (4 * j' + 2) mod n = i2 \<and> rnd (4 * j' + 3) mod n = i3))"

text \<open>The strings of four characters of the alphabet, and the invariant of the loop.\<close>

definition words_over :: "string \<Rightarrow> string set" where
  "words_over A = {w. set w \<subseteq> set A \<and> length w = 4}"

definition loop_inv :: "string \<Rightarrow> nat \<Rightarrow> string list \<Rightarrow> bool" where
  "loop_inv A N ws = (distinct ws \<and> set ws \<subseteq> words_over A \<and> length ws \<le> N)"

text \<open>A fallback token: four characters, each one of the first token of the list.\<close>

definition fallback_ok :: "string list \<Rightarrow> string \<Rightarrow> bool" where
  "fallback_ok toks tok = (length tok = 4 \<and> set tok \<subseteq> set (hd toks))"

text \<open>
  What the idempotence of the passes needs of the classes and the characters; each line is
  a fact of the classes of Python's \<open>str\<close> patterns on all of Unicode: a white-space
  character is no word character; the characters \<open>.!?;:,\<close> are neither word characters nor
  white space; the characters of \<open>[A-Z0-9]\<close> are word characters; the backslash is neither
  a word character, nor white space, nor one of \<open>.!?;:,\<close>; the quotation mark is neither a
  word character nor white space, and is not the backslash; the space and the line feed are
  white space; \<open>i\<close> and \<open>d\<close> are word characters.
\<close>

definition chars_ok :: "'c char_classes \<Rightarrow> bool" where
  "chars_ok U =
     ((\<forall>c. cls_space U c \<longrightarrow> \<not> cls_word U c) \<and>
      (\<forall>c. cls_punct U c \<longrightarrow> \<not> cls_word U c \<and> \<not> cls_space U c) \<and>
      (\<forall>c. cls_code U c \<longrightarrow> cls_word U c) \<and>
      \<not> cls_word U (chr_backslash U) \<and> \<not> cls_space U (chr_backslash U) \<and>
      \<not> cls_punct U (chr_backslash U) \<and>
      \<not> cls_word U (chr_quote U) \<and> \<not> cls_space U (chr_quote U) \<and>
      chr_quote U \<noteq> chr_backslash U \<and>
      cls_space U (chr_space U) \<and> cls_space U (chr_newline U) \<and>
      cls_word U (chr_i U) \<and> cls_word U (chr_d U))"

text \<open>
  What a match of the identifier-line pattern consists of: the book code, and the text that
  follows the line (empty, or starting with the line feed).
\<close>

definition id_line_parts :: "'c char_classes \<Rightarrow> 'c list \<Rightarrow> ('c list \<times> 'c list) option" where
  "id_line_parts U s =
     (case s of
        a # b # c # rest \<Rightarrow>
          if a = chr_backslash U \<and> b = chr_i U \<and> c = chr_d U \<and>
             takeWhile (cls_space U) rest \<noteq> [] \<and>
             takeWhile (cls_code U) (dropWhile (cls_space U) rest) \<noteq> []
          then Some (takeWhile (cls_code U) (dropWhile (cls_space U) rest),
                     dropWhile (\<lambda>x. x \<noteq> chr_newline U)
                       (dropWhile (cls_code U) (dropWhile (cls_space U) rest)))
          else None
      | _ \<Rightarrow> None)"

text \<open>
  A text is in normal form for the identifier-line pass when every match in it, at any
  position, is already its own replacement: the tag, one space and the code, up to the end
  of the line.
\<close>

fun id_normal :: "'c char_classes \<Rightarrow> 'c list \<Rightarrow> bool" where
  "id_normal U [] = True"
| "id_normal U (c # cs) =
     ((case id_line_parts U (c # cs) of
         None \<Rightarrow> True
       | Some (code, rest) \<Rightarrow>
           c # cs = chr_backslash U # chr_i U # chr_d U # chr_space U # code @ rest) \<and>
      id_normal U cs)"

text \<open>
  What the proofs need of the two classes of a spacing substitution: they are disjoint,
  white space is in neither, a backslash is not in the first, and no two word characters
  form a pair.
\<close>

definition spacing_pair :: "'c char_classes \<Rightarrow> ('c \<Rightarrow> bool) \<Rightarrow> ('c \<Rightarrow> bool) \<Rightarrow> bool" where
  "spacing_pair U p q =
     ((\<forall>c. p c \<longrightarrow> \<not> q c) \<and> (\<forall>c. cls_space U c \<longrightarrow> \<not> p c \<and> \<not> q c) \<and>
      \<not> p (chr_backslash U) \<and>
      (\<forall>a b. cls_word U a \<and> cls_word U b \<longrightarrow> \<not> (p a \<and> q b)))"

text \<open>No two adjacent characters form a pair of the two classes.\<close>

fun no_adjacent :: "('c \<Rightarrow> bool) \<Rightarrow> ('c \<Rightarrow> bool) \<Rightarrow> 'c list \<Rightarrow> bool" where
  "no_adjacent p q (a # b # cs) = (\<not> (p a \<and> q b) \<and> no_adjacent p q (b # cs))"
| "no_adjacent p q cs = True"

section \<open>The vocabulary: the latch and the invariant\<close>

lemma lower_lower: "lower (lower w) = lower w"
  by (auto simp: lower_def lower_char_def is_upper_def)

lemma record_word_latch:
  assumes "map_of v k = Some r" "preserve_caps r"
  shows "\<exists>r'. map_of (record_word iw v) k = Some r' \<and> preserve_caps r' \<and>
           original r' = original r"
  using assms
  by (cases "lower (snd iw) = k")
    (auto simp: record_word_def Let_def update_conv' split: option.splits)

lemma merge_entry_latch:
  assumes "map_of v k = Some r" "preserve_caps r"
  shows "\<exists>r'. map_of (merge_entry e v) k = Some r' \<and> preserve_caps r' \<and>
           original r' = original r"
  using assms
  by (cases "fst e = k") (auto simp: merge_entry_def Let_def update_conv' split: option.splits)

lemma fold_latch:
  assumes step: "\<And>x v r. map_of v k = Some r \<Longrightarrow> preserve_caps r \<Longrightarrow>
     \<exists>r'. map_of (f x v) k = Some r' \<and> preserve_caps r' \<and> original r' = original r"
    and "map_of v k = Some r" "preserve_caps r"
  shows "\<exists>r'. map_of (fold f xs v) k = Some r' \<and> preserve_caps r' \<and> original r' = original r"
  using assms(2,3)
proof (induction xs arbitrary: v r)
  case Nil
  then show ?case by simp
next
  case (Cons x xs)
  from step[OF Cons.prems, of x] obtain r1 where
    r1: "map_of (f x v) k = Some r1" "preserve_caps r1" "original r1 = original r"
    by blast
  from Cons.IH[OF r1(1,2)] r1(3) show ?case by simp
qed

lemma record_sentence_latch:
  assumes "map_of v k = Some r" "preserve_caps r"
  shows "\<exists>r'. map_of (record_sentence s v) k = Some r' \<and> preserve_caps r' \<and>
           original r' = original r"
  unfolding record_sentence_def
  by (rule fold_latch[OF _ assms]) (rule record_word_latch)

lemma merge_file_latch:
  assumes "map_of v k = Some r" "preserve_caps r"
  shows "\<exists>r'. map_of (merge_file_vocabulary f v) k = Some r' \<and> preserve_caps r' \<and>
           original r' = original r"
  unfolding merge_file_vocabulary_def
  by (rule fold_latch[OF _ assms]) (rule merge_entry_latch)

text \<open>
  C8. The flag \<open>preserve_caps\<close> is a latch, in the extraction and in the merging: once the
  entry of a word has the flag set, it keeps the flag and its stored form, whatever sightings
  of words (each with its position in its sentence), whatever sentences, and whatever
  vocabularies of further files follow. In particular the stored form is never replaced by
  the lower-case form.
\<close>

theorem preserve_caps_latch:
  assumes "map_of v k = Some r" and "preserve_caps r"
  shows "(\<exists>r'. map_of (fold record_word sightings v) k = Some r' \<and> preserve_caps r' \<and>
            original r' = original r) \<and>
         (\<exists>r'. map_of (fold record_sentence sentences v) k = Some r' \<and> preserve_caps r' \<and>
            original r' = original r) \<and>
         (\<exists>r'. map_of (fold merge_file_vocabulary file_vocabs v) k = Some r' \<and>
            preserve_caps r' \<and> original r' = original r)"
proof (intro conjI)
  show "\<exists>r'. map_of (fold record_word sightings v) k = Some r' \<and> preserve_caps r' \<and>
          original r' = original r"
    by (rule fold_latch[OF _ assms]) (rule record_word_latch)
  show "\<exists>r'. map_of (fold record_sentence sentences v) k = Some r' \<and> preserve_caps r' \<and>
          original r' = original r"
    by (rule fold_latch[OF _ assms]) (rule record_sentence_latch)
  show "\<exists>r'. map_of (fold merge_file_vocabulary file_vocabs v) k = Some r' \<and>
          preserve_caps r' \<and> original r' = original r"
    by (rule fold_latch[OF _ assms]) (rule merge_file_latch)
qed

text \<open>
  The entry of \<open>god\<close> with the stored form \<open>God\<close>, followed by two lower-case sightings at the
  start of a sentence, by a sentence, and by the vocabulary of a file that has the word in
  lower case.
\<close>

theorem preserve_caps_latch_witness:
  "map_of [(''god'', \<lparr>original = ''God'', preserve_caps = True, count = 2\<rparr>)] ''god'' =
     Some \<lparr>original = ''God'', preserve_caps = True, count = 2\<rparr> \<and>
   (\<exists>r'. map_of (fold record_word [(0, ''god''), (0, ''god'')]
            [(''god'', \<lparr>original = ''God'', preserve_caps = True, count = 2\<rparr>)]) ''god'' =
          Some r' \<and> preserve_caps r' \<and> original r' = ''God'') \<and>
   (\<exists>r'. map_of (fold record_sentence [''god is god'']
            [(''god'', \<lparr>original = ''God'', preserve_caps = True, count = 2\<rparr>)]) ''god'' =
          Some r' \<and> preserve_caps r' \<and> original r' = ''God'') \<and>
   (\<exists>r'. map_of (fold merge_file_vocabulary
            [[(''god'', \<lparr>original = ''god'', preserve_caps = False, count = 1\<rparr>)]]
            [(''god'', \<lparr>original = ''God'', preserve_caps = True, count = 2\<rparr>)]) ''god'' =
          Some r' \<and> preserve_caps r' \<and> original r' = ''God'')"
  using preserve_caps_latch[of
      "[(''god'', \<lparr>original = ''God'', preserve_caps = True, count = 2\<rparr>)]" "''god''"
      "\<lparr>original = ''God'', preserve_caps = True, count = 2\<rparr>"
      "[(0, ''god''), (0, ''god'')]" "[''god is god'']"
      "[[(''god'', \<lparr>original = ''god'', preserve_caps = False, count = 1\<rparr>)]]"]
  by simp

lemma set_update_subset: "set (AList.update k v al) \<subseteq> insert (k, v) (set al)"
  by (induction al) auto

lemma vocabulary_ok_update:
  "vocabulary_ok v \<Longrightarrow> entry_ok (k, r) \<Longrightarrow> vocabulary_ok (AList.update k r v)"
  using set_update_subset[of k r v] by (auto simp: vocabulary_ok_def list_all_iff)

lemma vocabulary_ok_lookup:
  "vocabulary_ok v \<Longrightarrow> map_of v k = Some r \<Longrightarrow> entry_ok (k, r)"
  by (auto simp: vocabulary_ok_def list_all_iff dest: map_of_SomeD)

lemma record_word_ok:
  assumes ok: "vocabulary_ok v"
  shows "vocabulary_ok (record_word iw v)"
proof (cases "map_of v (lower (snd iw))")
  case None
  then show ?thesis
    using ok by (auto simp: record_word_def Let_def entry_ok_def lower_lower
        intro!: vocabulary_ok_update)
next
  case (Some info)
  from vocabulary_ok_lookup[OF ok Some] have "entry_ok (lower (snd iw), info)" .
  with Some ok show ?thesis
    by (auto simp: record_word_def Let_def entry_ok_def intro!: vocabulary_ok_update)
qed

lemma fold_record_word_ok: "vocabulary_ok v \<Longrightarrow> vocabulary_ok (fold record_word ws v)"
  by (induction ws arbitrary: v) (auto simp: record_word_ok)

lemma record_sentence_ok: "vocabulary_ok v \<Longrightarrow> vocabulary_ok (record_sentence s v)"
  by (simp add: record_sentence_def fold_record_word_ok)

lemma fold_record_sentence_ok:
  "vocabulary_ok v \<Longrightarrow> vocabulary_ok (fold record_sentence ss v)"
  by (induction ss arbitrary: v) (auto simp: record_sentence_ok)

lemma extract_ok: "vocabulary_ok (extract_vocabulary_from_usfm content)"
proof -
  have "vocabulary_ok []" by (simp add: vocabulary_ok_def)
  then show ?thesis
    by (simp add: extract_vocabulary_from_usfm_def Let_def fold_record_sentence_ok)
qed

lemma merge_entry_ok:
  assumes "vocabulary_ok a" "entry_ok e"
  shows "vocabulary_ok (merge_entry e a)"
proof (cases "map_of a (fst e)")
  case None
  with assms show ?thesis
    by (cases e) (auto simp: merge_entry_def Let_def intro!: vocabulary_ok_update)
next
  case (Some cur)
  from vocabulary_ok_lookup[OF assms(1) Some] have "entry_ok (fst e, cur)" .
  with Some assms show ?thesis
    by (auto simp: merge_entry_def Let_def entry_ok_def intro!: vocabulary_ok_update)
qed

lemma merge_file_ok:
  "vocabulary_ok a \<Longrightarrow> vocabulary_ok f \<Longrightarrow> vocabulary_ok (merge_file_vocabulary f a)"
  unfolding merge_file_vocabulary_def
proof (induction f arbitrary: a)
  case Nil
  then show ?case by simp
next
  case (Cons e f)
  then have "entry_ok e" "vocabulary_ok f" by (auto simp: vocabulary_ok_def)
  with Cons show ?case by (simp add: merge_entry_ok)
qed

lemma fold_merge_file_ok:
  "vocabulary_ok a \<Longrightarrow> list_all vocabulary_ok fs \<Longrightarrow>
   vocabulary_ok (fold merge_file_vocabulary fs a)"
  by (induction fs arbitrary: a) (auto simp: merge_file_ok)

text \<open>
  C9. Every entry of a vocabulary that the extraction or the merging produces is well formed:
  the lower-case form of its stored form is its key, and without \<open>preserve_caps\<close> the stored
  form is the key itself. The vocabulary extracted from any content is well formed; every
  step of the extraction (one word, at any position) and every step of the merging (one well
  formed entry of a file, or the whole well formed vocabulary of a file) keeps a vocabulary
  well formed; and so the vocabulary merged from the files of a run is well formed.
\<close>

theorem vocabulary_invariant:
  "vocabulary_ok (extract_vocabulary_from_usfm content) \<and>
   (vocabulary_ok v \<longrightarrow> vocabulary_ok (record_word iw v)) \<and>
   (vocabulary_ok v \<and> entry_ok e \<longrightarrow> vocabulary_ok (merge_entry e v)) \<and>
   (vocabulary_ok v \<and> vocabulary_ok f \<longrightarrow> vocabulary_ok (merge_file_vocabulary f v)) \<and>
   vocabulary_ok (merge_vocabularies (map extract_vocabulary_from_usfm contents))"
proof -
  have "list_all vocabulary_ok (map extract_vocabulary_from_usfm contents)"
    by (simp add: list_all_iff extract_ok)
  then have "vocabulary_ok (merge_vocabularies (map extract_vocabulary_from_usfm contents))"
    unfolding merge_vocabularies_def
    by (intro fold_merge_file_ok) (simp_all add: vocabulary_ok_def)
  then show ?thesis
    by (simp add: extract_ok record_word_ok merge_entry_ok merge_file_ok)
qed

lemma god_vocabulary_ok:
  "vocabulary_ok [(''god'', \<lparr>original = ''God'', preserve_caps = True, count = 2\<rparr>)]"
  by code_simp

lemma god_entry_ok:
  "entry_ok (''god'', \<lparr>original = ''god'', preserve_caps = False, count = 1\<rparr>)"
  by code_simp

lemma god_file_ok:
  "vocabulary_ok [(''god'', \<lparr>original = ''god'', preserve_caps = False, count = 1\<rparr>)]"
  by code_simp

theorem vocabulary_invariant_witness:
  "vocabulary_ok [(''god'', \<lparr>original = ''God'', preserve_caps = True, count = 2\<rparr>)] \<and>
   entry_ok (''god'', \<lparr>original = ''god'', preserve_caps = False, count = 1\<rparr>) \<and>
   vocabulary_ok [(''god'', \<lparr>original = ''god'', preserve_caps = False, count = 1\<rparr>)] \<and>
   vocabulary_ok (extract_vocabulary_from_usfm ''Then God said'') \<and>
   vocabulary_ok (record_word (0, ''GOD'')
     [(''god'', \<lparr>original = ''God'', preserve_caps = True, count = 2\<rparr>)]) \<and>
   vocabulary_ok (merge_entry (''god'', \<lparr>original = ''god'', preserve_caps = False, count = 1\<rparr>)
     [(''god'', \<lparr>original = ''God'', preserve_caps = True, count = 2\<rparr>)]) \<and>
   vocabulary_ok (merge_file_vocabulary
     [(''god'', \<lparr>original = ''god'', preserve_caps = False, count = 1\<rparr>)]
     [(''god'', \<lparr>original = ''God'', preserve_caps = True, count = 2\<rparr>)]) \<and>
   vocabulary_ok (merge_vocabularies (map extract_vocabulary_from_usfm
     [''Then God said'', ''the god'']))"
  using vocabulary_invariant[of "''Then God said''"
      "[(''god'', \<lparr>original = ''God'', preserve_caps = True, count = 2\<rparr>)]"
      "(0, ''GOD'')" "(''god'', \<lparr>original = ''god'', preserve_caps = False, count = 1\<rparr>)"
      "[(''god'', \<lparr>original = ''god'', preserve_caps = False, count = 1\<rparr>)]"
      "[''Then God said'', ''the god'']"]
    god_vocabulary_ok god_entry_ok god_file_ok
  by simp
section \<open>The spacing substitutions\<close>

lemma pair_matcher_simps:
  "pair_matcher p q pre [] = None"
  "pair_matcher p q pre [a] = None"
  "pair_matcher p q pre (a # b # cs) = (if p a \<and> q b then Some 2 else None)"
  by (simp_all add: pair_matcher_def)

lemma sub_from_one: "sub_from m r 1 pre (c # cs) = sub_from m r 0 (c # pre) cs"
  by (simp add: One_nat_def)

lemma sub_from_step_None:
  "m pre (c # cs) = None \<Longrightarrow> sub_from m r 0 pre (c # cs) = c # sub_from m r 0 (c # pre) cs"
  by simp

lemma sub_from_step_two:
  "m pre (a # b # cs) = Some 2 \<Longrightarrow>
   sub_from m r 0 pre (a # b # cs) = r [a, b] @ sub_from m r 0 (b # a # pre) cs"
  by (simp add: sub_from_one)

lemma sub_from_pair_eq:
  "sub_from (pair_matcher p q) (space_between sp) 0 pre s = insert_spaces sp p q s"
proof (induction sp p q s arbitrary: pre rule: insert_spaces.induct)
  case (1 sp p q a b cs)
  show ?case
  proof (cases "p a \<and> q b")
    case True
    have "sub_from (pair_matcher p q) (space_between sp) 0 pre (a # b # cs) =
          space_between sp [a, b] @
            sub_from (pair_matcher p q) (space_between sp) 0 (b # a # pre) cs"
      by (rule sub_from_step_two) (use True in \<open>simp add: pair_matcher_simps\<close>)
    also have "\<dots> = a # sp # b # insert_spaces sp p q cs"
      by (simp only: "1.IH"(1)[OF True] space_between_def list.case append_Cons append_Nil)
    also have "\<dots> = insert_spaces sp p q (a # b # cs)"
      using True by simp
    finally show ?thesis .
  next
    case False
    have "sub_from (pair_matcher p q) (space_between sp) 0 pre (a # b # cs) =
          a # sub_from (pair_matcher p q) (space_between sp) 0 (a # pre) (b # cs)"
      by (rule sub_from_step_None) (use False in \<open>simp add: pair_matcher_simps\<close>)
    also have "\<dots> = a # insert_spaces sp p q (b # cs)"
      by (simp only: "1.IH"(2)[OF False])
    also have "\<dots> = insert_spaces sp p q (a # b # cs)"
      using False by auto
    finally show ?thesis .
  qed
qed (simp_all add: pair_matcher_simps)

lemma re_sub_pair:
  "re_sub (pair_matcher p q) (space_between sp) s = insert_spaces sp p q s"
  by (simp add: re_sub_def sub_from_pair_eq)

lemma insert_spaces_subseq: "subseq s (insert_spaces sp p q s)"
  by (induction sp p q s rule: insert_spaces.induct) auto

lemma insert_spaces_filter:
  "filter (\<lambda>c. c \<noteq> sp) (insert_spaces sp p q s) = filter (\<lambda>c. c \<noteq> sp) s"
  by (induction sp p q s rule: insert_spaces.induct) auto

lemma insert_spaces_only: "only_spaces_inserted sp s (insert_spaces sp p q s)"
  by (simp add: only_spaces_inserted_def insert_spaces_subseq insert_spaces_filter)

lemma only_spaces_inserted_trans:
  "only_spaces_inserted sp s t \<Longrightarrow> only_spaces_inserted sp t u \<Longrightarrow>
   only_spaces_inserted sp s u"
  unfolding only_spaces_inserted_def using subseq_order.order_trans by auto

lemma only_spaces_inserted_count:
  assumes "only_spaces_inserted sp s t" "c \<noteq> sp"
  shows "count_list t c = count_list s c"
proof -
  have "count_list xs c = count_list (filter (\<lambda>c. c \<noteq> sp) xs) c" for xs
    using assms(2) by (induction xs) auto
  with assms(1) show ?thesis by (metis only_spaces_inserted_def)
qed

lemma insert_spaces_length: "length (insert_spaces sp p q s) \<le> 2 * length s - 1"
  by (induction sp p q s rule: insert_spaces.induct) auto

lemma spacing_passes_eq:
  "spacing_passes U s =
     insert_spaces (chr_space U) (cls_word U) (\<lambda>c. c = chr_backslash U)
       (insert_spaces (chr_space U) (\<lambda>c. c = chr_quote U) (cls_word U)
         (insert_spaces (chr_space U) (cls_punct U) (cls_word U)
           (insert_spaces (chr_space U) (cls_word U) (cls_punct U) s)))"
  by (simp add: spacing_passes_def space_before_backslash_def space_after_quotes_def
      space_after_punctuation_def space_before_punctuation_def re_sub_pair)

lemma spacing_passes_only: "only_spaces_inserted (chr_space U) s (spacing_passes U s)"
  unfolding spacing_passes_eq
  by (blast intro: only_spaces_inserted_trans insert_spaces_only)

lemma spacing_pass_frame:
  assumes "only_spaces_inserted sp s t"
  shows "\<forall>c. c \<noteq> sp \<longrightarrow> count_list t c = count_list s c"
  using only_spaces_inserted_count[OF assms] by blast

lemma newline_not_space: "newline \<noteq> CHR '' ''"
  by (simp add: newline_def)

lemma python_chars_simps:
  "cls_word python_chars = is_word_char" "cls_space python_chars = is_space"
  "cls_punct python_chars = is_punct" "cls_code python_chars = is_code_char"
  "chr_backslash python_chars = backslash" "chr_newline python_chars = newline"
  "chr_quote python_chars = quote" "chr_space python_chars = CHR '' ''"
  "chr_i python_chars = CHR ''i''" "chr_d python_chars = CHR ''d''"
  by (simp_all add: python_chars_def)

text \<open>
  C10. Each of the four spacing substitutions, and so their composition, only inserts
  spaces, whatever the characters and the classes \<open>\w\<close> and \<open>[.!?;:,]\<close> are: the characters
  of the input occur in the output unchanged and in their order, the output without its
  spaces is the input without its spaces, every character other than the space (so the line
  feed) occurs as often in the output as in the input, and one substitution puts at most
  one space between two neighbours.
\<close>

theorem spacing_only_inserts_spaces:
  "only_spaces_inserted (chr_space U) s (space_before_punctuation U s) \<and>
   only_spaces_inserted (chr_space U) s (space_after_punctuation U s) \<and>
   only_spaces_inserted (chr_space U) s (space_after_quotes U s) \<and>
   only_spaces_inserted (chr_space U) s (space_before_backslash U s) \<and>
   only_spaces_inserted (chr_space U) s (spacing_passes U s) \<and>
   (\<forall>c. c \<noteq> chr_space U \<longrightarrow>
      count_list (space_before_punctuation U s) c = count_list s c \<and>
      count_list (space_after_punctuation U s) c = count_list s c \<and>
      count_list (space_after_quotes U s) c = count_list s c \<and>
      count_list (space_before_backslash U s) c = count_list s c \<and>
      count_list (spacing_passes U s) c = count_list s c) \<and>
   length (space_before_punctuation U s) \<le> 2 * length s - 1 \<and>
   length (space_after_punctuation U s) \<le> 2 * length s - 1 \<and>
   length (space_after_quotes U s) \<le> 2 * length s - 1 \<and>
   length (space_before_backslash U s) \<le> 2 * length s - 1"
proof -
  let ?sp = "chr_space U"
  have a: "only_spaces_inserted ?sp s (space_before_punctuation U s)"
    and b: "only_spaces_inserted ?sp s (space_after_punctuation U s)"
    and c: "only_spaces_inserted ?sp s (space_after_quotes U s)"
    and d: "only_spaces_inserted ?sp s (space_before_backslash U s)"
    by (simp_all add: space_before_backslash_def space_after_quotes_def
        space_after_punctuation_def space_before_punctuation_def re_sub_pair
        insert_spaces_only)
  have e: "only_spaces_inserted ?sp s (spacing_passes U s)"
    by (rule spacing_passes_only)
  have f: "length (space_before_punctuation U s) \<le> 2 * length s - 1"
    "length (space_after_punctuation U s) \<le> 2 * length s - 1"
    "length (space_after_quotes U s) \<le> 2 * length s - 1"
    "length (space_before_backslash U s) \<le> 2 * length s - 1"
    by (simp_all add: space_before_backslash_def space_after_quotes_def
        space_after_punctuation_def space_before_punctuation_def re_sub_pair
        insert_spaces_length[unfolded One_nat_def])
  show ?thesis
    using a b c d e f spacing_pass_frame[OF a] spacing_pass_frame[OF b]
      spacing_pass_frame[OF c] spacing_pass_frame[OF d] spacing_pass_frame[OF e]
    by simp
qed

lemma spacing_example:
  "spacing_passes python_chars (''he said,'' @ [quote] @ ''go.'' @ [newline, backslash] @ ''p'') =
     ''he said ,'' @ [quote] @ '' go .'' @ [newline, backslash] @ ''p''"
  by code_simp

text \<open>
  The theorem at the characters and classes of the program, and the text
  \<open>he said,"go.\<close>, a line feed and \<open>\p\<close>: three spaces are inserted, and the one line feed
  is kept.
\<close>

theorem spacing_only_inserts_spaces_witness:
  "newline \<noteq> chr_space python_chars \<and>
   count_list (spacing_passes python_chars
       (''he said,'' @ [quote] @ ''go.'' @ [newline, backslash] @ ''p'')) newline = 1 \<and>
   only_spaces_inserted (CHR '' '')
     (''he said,'' @ [quote] @ ''go.'' @ [newline, backslash] @ ''p'')
     (''he said ,'' @ [quote] @ '' go .'' @ [newline, backslash] @ ''p'')"
proof -
  let ?s = "''he said,'' @ [quote] @ ''go.'' @ [newline, backslash] @ ''p''"
  note t = spacing_only_inserts_spaces[of python_chars ?s]
  have ns: "newline \<noteq> chr_space python_chars"
    by (simp add: python_chars_simps newline_def)
  from t have "only_spaces_inserted (chr_space python_chars) ?s (spacing_passes python_chars ?s)"
    by blast
  hence o: "only_spaces_inserted (CHR '' '') ?s
      (''he said ,'' @ [quote] @ '' go .'' @ [newline, backslash] @ ''p'')"
    by (simp only: spacing_example python_chars_simps)
  from t ns have "count_list (spacing_passes python_chars ?s) newline = count_list ?s newline"
    by blast
  also have "count_list ?s newline = 1"
    by code_simp
  finally show ?thesis
    using ns o by blast
qed

section \<open>The token generator\<close>

lemma upt_4: "[0..<4] = [0, 1, 2, 3]"
  by (simp add: upt_rec)

lemma random_word_Inr:
  "A \<noteq> [] \<Longrightarrow> random_word rnd k A =
     Inr [A ! (rnd k mod length A), A ! (rnd (k + 1) mod length A),
          A ! (rnd (k + 2) mod length A), A ! (rnd (k + 3) mod length A)]"
  by (simp add: random_word_def random_choice_def upt_4)

lemma random_word_Nil: "random_word rnd k [] = Inl IndexError"
  by (simp add: random_word_def random_choice_def)

lemma random_word_words_over:
  assumes "random_word rnd k A = Inr w"
  shows "w \<in> words_over A"
proof -
  have ne: "A \<noteq> []" using assms by (auto simp: random_word_Nil)
  then have "rnd i mod length A < length A" for i by simp
  then show ?thesis
    using assms unfolding random_word_Inr[OF ne] words_over_def by auto
qed

lemma finite_words_over: "finite (words_over A)"
  unfolding words_over_def by (rule finite_lists_length_eq) simp

lemma card_words_over: "card (words_over A) = card (set A) ^ 4"
  unfolding words_over_def by (simp add: card_lists_length_eq)

lemma fair_word:
  assumes fair: "fair_source rnd (length A)" and w: "w \<in> words_over A"
  shows "\<exists>j'\<ge>j. random_word rnd (4 * j') A = Inr w"
proof -
  from w obtain c0 c1 c2 c3 where weq: "w = [c0, c1, c2, c3]"
    and cs: "c0 \<in> set A" "c1 \<in> set A" "c2 \<in> set A" "c3 \<in> set A"
    unfolding words_over_def
    by (auto simp: length_Suc_conv numeral_eq_Suc)
  from cs obtain i0 i1 i2 i3 where
    i: "i0 < length A" "A ! i0 = c0" "i1 < length A" "A ! i1 = c1"
       "i2 < length A" "A ! i2 = c2" "i3 < length A" "A ! i3 = c3"
    by (auto simp: in_set_conv_nth)
  then have ne: "A \<noteq> []" by auto
  from fair i obtain j' where "j' \<ge> j"
    "rnd (4 * j') mod length A = i0" "rnd (4 * j' + 1) mod length A = i1"
    "rnd (4 * j' + 2) mod length A = i2" "rnd (4 * j' + 3) mod length A = i3"
    unfolding fair_source_def by blast
  with i weq show ?thesis
    by (intro exI[of _ j']) (simp add: random_word_Inr[OF ne])
qed

lemma loop_inv_set_add:
  assumes "loop_inv A N ws" "length ws < N" "w \<in> words_over A"
  shows "loop_inv A N (set_add w ws)"
  using assms by (auto simp: loop_inv_def set_add_def)

lemma generate_loop_done:
  "\<not> length ws < N \<Longrightarrow> generate_loop rnd A N k ws = Some (Inr ws)"
  by (subst generate_loop.simps) simp

lemma generate_loop_step:
  "length ws < N \<Longrightarrow> random_word rnd k A = Inr w \<Longrightarrow>
   generate_loop rnd A N k ws = generate_loop rnd A N (k + 4) (set_add w ws)"
  by (subst generate_loop.simps) simp

lemma generate_loop_total:
  assumes fair: "fair_source rnd (length A)" and N: "N \<le> card (set A) ^ 4"
  shows "loop_inv A N ws \<Longrightarrow>
         \<exists>ws'. generate_loop rnd A N (4 * j) ws = Some (Inr ws') \<and> loop_inv A N ws' \<and>
               length ws' = N"
proof (induction "N - length ws" arbitrary: ws j rule: less_induct)
  case less
  show ?case
  proof (cases "length ws < N")
    case False
    with less.prems have "length ws = N" by (simp add: loop_inv_def)
    with False less.prems show ?thesis by (simp add: generate_loop_done)
  next
    case True
    have "card (set ws) < card (words_over A)"
      using True N less.prems by (simp add: loop_inv_def distinct_card card_words_over)
    then have "set ws \<noteq> words_over A" by auto
    with less.prems obtain w where w: "w \<in> words_over A" "w \<notin> set ws"
      by (auto simp: loop_inv_def)
    from fair_word[OF fair w(1), of j] obtain j' where
      j': "j' \<ge> j" "random_word rnd (4 * j') A = Inr w" by blast
    have "\<exists>ws'. generate_loop rnd A N (4 * i) ws = Some (Inr ws') \<and> loop_inv A N ws' \<and>
               length ws' = N" if "i + d = j'" for d i
      using that
    proof (induction d arbitrary: i)
      case 0
      then have rw: "random_word rnd (4 * i) A = Inr w" using j' by simp
      have inv': "loop_inv A N (set_add w ws)"
        by (rule loop_inv_set_add[OF less.prems True w(1)])
      have "N - length (set_add w ws) < N - length ws"
        using True w(2) by (simp add: set_add_def)
      from less.hyps[OF this inv', of "Suc i"]
      show ?case by (simp add: generate_loop_step[OF True rw] add.commute)
    next
      case (Suc d)
      have "A \<noteq> []" using w(1) by (auto simp: words_over_def)
      then obtain u where rw: "random_word rnd (4 * i) A = Inr u"
        by (simp add: random_word_Inr)
      have uW: "u \<in> words_over A" by (rule random_word_words_over[OF rw])
      show ?case
      proof (cases "u \<in> set ws")
        case True
        then have "set_add u ws = ws" by (simp add: set_add_def)
        moreover from Suc.prems have "Suc i + d = j'" by simp
        from Suc.IH[OF this] have "\<exists>ws'. generate_loop rnd A N (4 * Suc i) ws = Some (Inr ws') \<and>
            loop_inv A N ws' \<and> length ws' = N" .
        ultimately show ?thesis
          by (simp add: generate_loop_step[OF \<open>length ws < N\<close> rw] add.commute)
      next
        case False
        have inv': "loop_inv A N (set_add u ws)"
          by (rule loop_inv_set_add[OF less.prems \<open>length ws < N\<close> uW])
        have "N - length (set_add u ws) < N - length ws"
          using \<open>length ws < N\<close> False by (simp add: set_add_def)
        from less.hyps[OF this inv', of "Suc i"]
        show ?thesis by (simp add: generate_loop_step[OF \<open>length ws < N\<close> rw] add.commute)
      qed
    qed
    from this[of j "j' - j"] j'(1) show ?thesis by simp
  qed
qed


text \<open>
  Where the requested number, bounded by the fourth power of the length of the alphabet, is
  at most the number of the words that exist (the fourth power of the number of the
  different characters), the generator does what is expected of it for every fair random
  source: it returns, the list has \<open>n\<close> strings when \<open>n\<close> is at most the fourth power of the
  length and that power otherwise, the strings are pairwise distinct, each has four
  characters of the alphabet, and the warning is printed exactly when \<open>n\<close> exceeds that
  power. An alphabet of pairwise distinct characters is always in this case.
\<close>

lemma generate_unique_nonsense_words_correct:
  assumes "fair_source rnd (length (strip_brackets chars))"
    and "min n (length (strip_brackets chars) ^ 4) \<le> card (set (strip_brackets chars)) ^ 4"
  shows "\<exists>words.
           generate_unique_nonsense_words rnd chars n =
             Some (Inr (if n > length (strip_brackets chars) ^ 4
                        then [TooManyWords n (length (strip_brackets chars) ^ 4)] else [],
                        words)) \<and>
           length words = min n (length (strip_brackets chars) ^ 4) \<and>
           distinct words \<and>
           (\<forall>w\<in>set words. length w = 4 \<and> set w \<subseteq> set (strip_brackets chars))"
proof -
  define A where "A = strip_brackets chars"
  define N where "N = min n (length A ^ 4)"
  have "loop_inv A N []" by (simp add: loop_inv_def)
  moreover have "N \<le> card (set A) ^ 4" using assms(2) by (simp add: N_def A_def)
  ultimately obtain ws where ws: "generate_loop rnd A N 0 [] = Some (Inr ws)"
    "loop_inv A N ws" "length ws = N"
    using generate_loop_total[OF assms(1)[folded A_def], of N "[]" 0] by auto
  have "N = (if n > length A ^ 4 then length A ^ 4 else n)" by (simp add: N_def)
  with ws show ?thesis
    unfolding generate_unique_nonsense_words_def Let_def A_def[symmetric]
    by (intro exI[of _ ws]) (auto simp: loop_inv_def words_over_def N_def)
qed

lemma generate_unique_nonsense_words_distinct:
  assumes "distinct (strip_brackets chars)"
    and "fair_source rnd (length (strip_brackets chars))"
  shows "\<exists>words.
           generate_unique_nonsense_words rnd chars n =
             Some (Inr (if n > length (strip_brackets chars) ^ 4
                        then [TooManyWords n (length (strip_brackets chars) ^ 4)] else [],
                        words)) \<and>
           length words = min n (length (strip_brackets chars) ^ 4) \<and>
           distinct words \<and>
           (\<forall>w\<in>set words. length w = 4 \<and> set w \<subseteq> set (strip_brackets chars))"
  by (rule generate_unique_nonsense_words_correct[OF assms(2)])
    (simp add: distinct_card[OF assms(1)])

lemma two_pow_four: "Suc (Suc 0) ^ 4 = 16"
  by (simp add: eval_nat_numeral)

lemma low_bit:
  "i < 2 \<Longrightarrow> (i + 2 * x) mod 2 = (i::nat)" "i < 2 \<Longrightarrow> (i + 2 * x) div 2 = (x::nat)"
  by simp_all

lemma block_bits:
  fixes j i0 i1 i2 i3 :: nat
  assumes lt: "i0 < 2" "i1 < 2" "i2 < 2" "i3 < 2"
  defines "j' \<equiv> i0 + 2 * (i1 + 2 * (i2 + 2 * (i3 + 2 * j)))"
  shows "j \<le> j'" "j' mod 2 = i0" "(j' div 2) mod 2 = i1" "(j' div 4) mod 2 = i2"
    "(j' div 8) mod 2 = i3"
proof -
  have d4: "j' div 4 = j' div 2 div 2" and d8: "j' div 8 = j' div 2 div 2 div 2"
    by (simp_all add: div_mult2_eq[symmetric])
  show "j \<le> j'" by (simp add: j'_def)
  show "j' mod 2 = i0" unfolding j'_def by (rule low_bit(1)[OF lt(1)])
  show "(j' div 2) mod 2 = i1" unfolding j'_def by (simp only: low_bit lt)
  have "(j' div 2 div 2) mod 2 = i2" unfolding j'_def by (simp only: low_bit lt)
  then show "(j' div 4) mod 2 = i2" by (simp only: d4)
  have "(j' div 2 div 2 div 2) mod 2 = i3" unfolding j'_def by (simp only: low_bit lt)
  then show "(j' div 8) mod 2 = i3" by (simp only: d8)
qed

lemma draw_positions:
  "4 * j' div 4 = (j'::nat)" "(4 * j' + 1) div 4 = j'" "(4 * j' + 2) div 4 = j'"
  "(4 * j' + 3) div 4 = j'" "4 * j' mod 4 = 0" "(4 * j' + 1) mod 4 = 1"
  "(4 * j' + 2) mod 4 = 2" "(4 * j' + 3) mod 4 = 3"
  by presburger+

lemma bit_source_fair: "fair_source (\<lambda>k. (k div 4) div 2 ^ (k mod 4)) 2"
  unfolding fair_source_def
proof (intro allI impI)
  fix j i0 i1 i2 i3 :: nat
  assume lt: "i0 < 2 \<and> i1 < 2 \<and> i2 < 2 \<and> i3 < 2"
  define j' where "j' = i0 + 2 * (i1 + 2 * (i2 + 2 * (i3 + 2 * j)))"
  have p: "(2::nat) ^ 0 = 1" "(2::nat) ^ 1 = 2" "(2::nat) ^ 2 = 4" "(2::nat) ^ 3 = 8"
    by simp_all
  from lt block_bits[of i0 i1 i2 i3 j, folded j'_def]
  have b: "j \<le> j'" "j' mod 2 = i0" "(j' div 2) mod 2 = i1" "(j' div 4) mod 2 = i2"
    "(j' div 8) mod 2 = i3"
    by simp_all
  show "\<exists>j'\<ge>j. (4 * j' div 4 div 2 ^ (4 * j' mod 4)) mod 2 = i0 \<and>
         ((4 * j' + 1) div 4 div 2 ^ ((4 * j' + 1) mod 4)) mod 2 = i1 \<and>
         ((4 * j' + 2) div 4 div 2 ^ ((4 * j' + 2) mod 4)) mod 2 = i2 \<and>
         ((4 * j' + 3) div 4 div 2 ^ ((4 * j' + 3) mod 4)) mod 2 = i3"
    by (intro exI[of _ j']) (simp only: draw_positions p b div_by_1 simp_thms)
qed

lemma strip_ab: "strip_brackets ''[ab]'' = ''ab''"
  by (simp add: strip_brackets_def)

text \<open>
  The alphabet \<open>[ab]\<close> with three words requested, and the source whose iteration \<open>j\<close>
  draws the four low bits of \<open>j\<close>.
\<close>

lemma generate_unique_nonsense_words_example:
  "\<exists>words.
      generate_unique_nonsense_words (\<lambda>k. (k div 4) div 2 ^ (k mod 4)) ''[ab]'' 3 =
        Some (Inr ([], words)) \<and>
      length words = 3 \<and> distinct words \<and>
      (\<forall>w\<in>set words. length w = 4 \<and> set w \<subseteq> set ''ab'')"
proof -
  have l: "length (strip_brackets ''[ab]'') = 2" by (simp add: strip_ab)
  have d: "distinct (strip_brackets ''[ab]'')" by (simp add: strip_ab)
  have f: "fair_source (\<lambda>k. (k div 4) div 2 ^ (k mod 4)) (length (strip_brackets ''[ab]''))"
    unfolding l by (rule bit_source_fair)
  show ?thesis
    using generate_unique_nonsense_words_distinct[OF d f, of 3] unfolding l strip_ab
    by (simp add: two_pow_four)
qed

text \<open>
  Where more words are requested than exist, and the fourth power of the length of the
  alphabet does not show it, the loop never ends: every word that is drawn is in the set
  already, once all of them are.
\<close>

lemma generate_loop_stuck:
  assumes "generate_loop rnd0 A0 N0 k0 ws0 = Some y0"
  shows "A0 \<noteq> [] \<longrightarrow> card (words_over A0) < N0 \<longrightarrow> distinct ws0 \<longrightarrow>
         set ws0 \<subseteq> words_over A0 \<longrightarrow> False"
proof (rule generate_loop.raw_induct[where P = "\<lambda>rnd A N k ws y.
    A \<noteq> [] \<longrightarrow> card (words_over A) < N \<longrightarrow> distinct ws \<longrightarrow> set ws \<subseteq> words_over A \<longrightarrow> False",
    OF _ assms])
  fix loop :: "rng \<Rightarrow> string \<Rightarrow> nat \<Rightarrow> nat \<Rightarrow> string list \<Rightarrow> (py_error + string list) option"
    and rnd A N k ws y
  assume IH: "\<And>rnd A N k ws y. loop rnd A N k ws = Some y \<Longrightarrow>
      A \<noteq> [] \<longrightarrow> card (words_over A) < N \<longrightarrow> distinct ws \<longrightarrow> set ws \<subseteq> words_over A \<longrightarrow> False"
    and body: "(if length ws < N
       then case random_word rnd k A of Inl e \<Rightarrow> Some (Inl e)
            | Inr word \<Rightarrow> loop rnd A N (k + 4) (set_add word ws)
       else Some (Inr ws)) = Some y"
  show "A \<noteq> [] \<longrightarrow> card (words_over A) < N \<longrightarrow> distinct ws \<longrightarrow> set ws \<subseteq> words_over A \<longrightarrow> False"
  proof (intro impI)
    assume A: "A \<noteq> []" and N: "card (words_over A) < N" and d: "distinct ws"
      and s: "set ws \<subseteq> words_over A"
    have "card (set ws) \<le> card (words_over A)"
      by (rule card_mono[OF finite_words_over s])
    with d N have len: "length ws < N" by (simp add: distinct_card)
    from A obtain u where rw: "random_word rnd k A = Inr u"
      by (simp add: random_word_Inr)
    have uW: "u \<in> words_over A" by (rule random_word_words_over[OF rw])
    from body len rw
    have call: "loop rnd A N (k + 4) (set_add u ws) = Some y" by simp
    have "distinct (set_add u ws)" "set (set_add u ws) \<subseteq> words_over A"
      using d s uW by (auto simp: set_add_def)
    with IH[OF call] A N show False by blast
  qed
qed

lemma generate_unique_nonsense_words_stuck:
  assumes "strip_brackets chars \<noteq> []"
    and "card (set (strip_brackets chars)) ^ 4 < min n (length (strip_brackets chars) ^ 4)"
  shows "generate_unique_nonsense_words rnd chars n = None"
proof -
  define A where "A = strip_brackets chars"
  define N where "N = (if n > length A ^ 4 then length A ^ 4 else n)"
  have N: "card (words_over A) < N"
    using assms(2) by (simp add: N_def A_def card_words_over)
  have "generate_loop rnd A N 0 [] = None"
  proof (cases "generate_loop rnd A N 0 []")
    case (Some y)
    from generate_loop_stuck[OF Some] assms(1) N show ?thesis by (simp add: A_def)
  qed simp
  then show ?thesis
    unfolding generate_unique_nonsense_words_def Let_def A_def[symmetric] N_def[symmetric]
    by simp
qed

lemma generate_loop_aa:
  assumes "generate_loop rnd0 A0 N0 k0 ws0 = Some y0"
  shows "A0 = ''aa'' \<longrightarrow> N0 = 2 \<longrightarrow> distinct ws0 \<longrightarrow> set ws0 \<subseteq> {''aaaa''} \<longrightarrow> False"
proof (rule generate_loop.raw_induct[where P = "\<lambda>rnd A N k ws y.
    A = ''aa'' \<longrightarrow> N = 2 \<longrightarrow> distinct ws \<longrightarrow> set ws \<subseteq> {''aaaa''} \<longrightarrow> False", OF _ assms])
  fix loop :: "rng \<Rightarrow> string \<Rightarrow> nat \<Rightarrow> nat \<Rightarrow> string list \<Rightarrow> (py_error + string list) option"
    and rnd A N k ws y
  assume IH: "\<And>rnd A N k ws y. loop rnd A N k ws = Some y \<Longrightarrow>
      A = ''aa'' \<longrightarrow> N = 2 \<longrightarrow> distinct ws \<longrightarrow> set ws \<subseteq> {''aaaa''} \<longrightarrow> False"
    and body: "(if length ws < N
       then case random_word rnd k A of Inl e \<Rightarrow> Some (Inl e)
            | Inr word \<Rightarrow> loop rnd A N (k + 4) (set_add word ws)
       else Some (Inr ws)) = Some y"
  show "A = ''aa'' \<longrightarrow> N = 2 \<longrightarrow> distinct ws \<longrightarrow> set ws \<subseteq> {''aaaa''} \<longrightarrow> False"
  proof (intro impI)
    assume A: "A = ''aa''" and N: "N = 2" and d: "distinct ws" and s: "set ws \<subseteq> {''aaaa''}"
    have "card (set ws) \<le> card {''aaaa''}" by (rule card_mono) (use s in auto)
    with d have len: "length ws < N" by (simp add: distinct_card N)
    have "''aa'' ! (x mod Suc (Suc 0)) = CHR ''a''" for x :: nat
    proof -
      have "x mod Suc (Suc 0) = 0 \<or> x mod Suc (Suc 0) = Suc 0" by presburger
      then show ?thesis by auto
    qed
    then have rw: "random_word rnd k A = Inr ''aaaa''"
      by (simp add: A random_word_Inr)
    from body len rw
    have call: "loop rnd A N (k + 4) (set_add ''aaaa'' ws) = Some y" by simp
    have "distinct (set_add ''aaaa'' ws)" "set (set_add ''aaaa'' ws) \<subseteq> {''aaaa''}"
      using d s by (auto simp: set_add_def)
    with IH[OF call] A N show False by blast
  qed
qed

text \<open>
  C2 fails on the code. The claim: when the requested number is at most the number of the
  words of four characters of the alphabet, the generator returns that many distinct
  words, and when it is greater, the generator takes the number of the words that exist
  instead, prints the warning, and returns. The alphabet \<open>aa\<close> has one character and one
  word, \<open>aaaa\<close>; with two words requested the generator should print the warning and return
  that word. The bound that the code computes, to be sure that there are enough words, is
  the fourth power of the length of the text, 16: there is no warning, the request is
  kept, and the generator returns for no random source.
\<close>

theorem repeated_character_never_returns:
  "(2::nat) \<le> length (strip_brackets ''aa'') ^ 4 \<and>
   (\<forall>rnd. generate_unique_nonsense_words rnd ''aa'' 2 = None)"
proof -
  have s: "strip_brackets ''aa'' = ''aa''" by (simp add: strip_brackets_def)
  have "generate_unique_nonsense_words rnd ''aa'' 2 = None" for rnd
    by (rule generate_unique_nonsense_words_stuck) (simp_all add: s two_pow_four)
  moreover have "(2::nat) \<le> length (strip_brackets ''aa'') ^ 4"
    by (simp add: s two_pow_four)
  ultimately show ?thesis by blast
qed

text \<open>
  With one word requested the same alphabet is served: the one word is drawn at once.
\<close>

lemma repeated_character_one_word:
  "generate_unique_nonsense_words rnd ''aa'' 1 = Some (Inr ([], [''aaaa'']))"
proof -
  have s: "strip_brackets ''aa'' = ''aa''" by (simp add: strip_brackets_def)
  have "''aa'' ! (x mod Suc (Suc 0)) = CHR ''a''" for x :: nat
  proof -
    have "x mod Suc (Suc 0) = 0 \<or> x mod Suc (Suc 0) = Suc 0" by presburger
    then show ?thesis by auto
  qed
  then have rw: "random_word rnd 0 ''aa'' = Inr ''aaaa''"
    by (simp add: random_word_Inr)
  have "generate_loop rnd ''aa'' 1 0 [] = generate_loop rnd ''aa'' 1 4 (set_add ''aaaa'' [])"
    using generate_loop_step[of "[]" 1 rnd 0 "''aa''" "''aaaa''"] rw by simp
  also have "\<dots> = Some (Inr [''aaaa''])"
    by (simp add: generate_loop_done set_add_def)
  finally show ?thesis
    unfolding generate_unique_nonsense_words_def Let_def s by (simp add: two_pow_four)
qed

lemma generate_loop_zero: "generate_loop rnd A 0 k ws = Some (Inr ws)"
  by (simp add: generate_loop_done)

text \<open>
  C7, as amended. For an alphabet of size 0 (the empty string, or \<open>[]\<close> once the brackets are
  stripped), every requested number and every random source, the generator returns at once,
  without a draw: it returns the empty list, with the warning exactly when the requested
  number is positive. It neither raises nor loops.
\<close>

theorem empty_alphabet_returns_empty_list:
  assumes "strip_brackets chars = []"
  shows "generate_unique_nonsense_words rnd chars n =
           Some (Inr (if n > 0 then [TooManyWords n 0] else [], []))"
  using assms by (simp add: generate_unique_nonsense_words_def generate_loop_zero)

text \<open>The alphabet \<open>[]\<close> with five words requested.\<close>

theorem empty_alphabet_returns_empty_list_witness:
  "strip_brackets ''[]'' = [] \<and>
   generate_unique_nonsense_words (\<lambda>k. k) ''[]'' 5 = Some (Inr ([TooManyWords 5 0], []))"
proof -
  have e: "strip_brackets ''[]'' = []" by (simp add: strip_brackets_def)
  from empty_alphabet_returns_empty_list[OF e, of "\<lambda>k. k" 5] e show ?thesis by simp
qed

text \<open>
  C7 as stated fails: with the empty alphabet and three words requested the generator does
  not fail, it returns the empty list and the warning.
\<close>

theorem empty_alphabet_does_not_fail:
  "generate_unique_nonsense_words (\<lambda>k. 0) [] 3 = Some (Inr ([TooManyWords 3 0], [])) \<and>
   (\<forall>e. generate_unique_nonsense_words (\<lambda>k. 0) [] 3 \<noteq> Some (Inl e))"
  by (simp add: generate_unique_nonsense_words_def strip_brackets_def generate_loop_zero)

text \<open>
  Whenever the generator returns, for any alphabet and any random source, its result is as
  specified: the number of words is the requested one or the fourth power of the size of
  the alphabet, the words are distinct, and each has four characters of the alphabet.
\<close>

lemma generate_loop_partial:
  assumes "generate_loop rnd0 A0 N0 k0 ws0 = Some y0"
  shows "A0 \<noteq> [] \<longrightarrow> loop_inv A0 N0 ws0 \<longrightarrow>
         (\<exists>ws'. y0 = Inr ws' \<and> loop_inv A0 N0 ws' \<and> length ws' = N0)"
proof (rule generate_loop.raw_induct[where P = "\<lambda>rnd A N k ws y.
    A \<noteq> [] \<longrightarrow> loop_inv A N ws \<longrightarrow> (\<exists>ws'. y = Inr ws' \<and> loop_inv A N ws' \<and> length ws' = N)",
    OF _ assms])
  fix loop :: "rng \<Rightarrow> string \<Rightarrow> nat \<Rightarrow> nat \<Rightarrow> string list \<Rightarrow> (py_error + string list) option"
    and rnd A N k ws y
  assume IH: "\<And>rnd A N k ws y. loop rnd A N k ws = Some y \<Longrightarrow>
      A \<noteq> [] \<longrightarrow> loop_inv A N ws \<longrightarrow>
      (\<exists>ws'. y = Inr ws' \<and> loop_inv A N ws' \<and> length ws' = N)"
    and body: "(if length ws < N
       then case random_word rnd k A of Inl e \<Rightarrow> Some (Inl e)
            | Inr word \<Rightarrow> loop rnd A N (k + 4) (set_add word ws)
       else Some (Inr ws)) = Some y"
  show "A \<noteq> [] \<longrightarrow> loop_inv A N ws \<longrightarrow>
        (\<exists>ws'. y = Inr ws' \<and> loop_inv A N ws' \<and> length ws' = N)"
  proof (intro impI)
    assume ne: "A \<noteq> []" and inv: "loop_inv A N ws"
    show "\<exists>ws'. y = Inr ws' \<and> loop_inv A N ws' \<and> length ws' = N"
    proof (cases "length ws < N")
      case False
      with inv have "length ws = N" by (simp add: loop_inv_def)
      with body False inv show ?thesis by auto
    next
      case True
      from ne obtain w where rw: "random_word rnd k A = Inr w"
        by (simp add: random_word_Inr)
      with body True have call: "loop rnd A N (k + 4) (set_add w ws) = Some y" by simp
      have "loop_inv A N (set_add w ws)"
        by (rule loop_inv_set_add[OF inv True random_word_words_over[OF rw]])
      with IH[OF call] ne show ?thesis by blast
    qed
  qed
qed

lemma generate_unique_nonsense_words_partial:
  assumes "generate_unique_nonsense_words rnd chars n = Some result"
  shows "\<exists>words. result =
           Inr (if n > length (strip_brackets chars) ^ 4
                then [TooManyWords n (length (strip_brackets chars) ^ 4)] else [], words) \<and>
         length words = min n (length (strip_brackets chars) ^ 4) \<and> distinct words \<and>
         (\<forall>w\<in>set words. length w = 4 \<and> set w \<subseteq> set (strip_brackets chars))"
proof (cases "strip_brackets chars = []")
  case True
  with assms show ?thesis
    by (auto simp: generate_unique_nonsense_words_def generate_loop_zero)
next
  case False
  define A where "A = strip_brackets chars"
  define N where "N = (if n > length A ^ 4 then length A ^ 4 else n)"
  have unf: "generate_unique_nonsense_words rnd chars n =
      (case generate_loop rnd A N 0 [] of
         None \<Rightarrow> None
       | Some (Inl e) \<Rightarrow> Some (Inl e)
       | Some (Inr words) \<Rightarrow>
           Some (Inr (if n > length A ^ 4 then [TooManyWords n (length A ^ 4)] else [], words)))"
    unfolding generate_unique_nonsense_words_def Let_def A_def N_def ..
  from assms obtain y where y: "generate_loop rnd A N 0 [] = Some y"
    unfolding unf by (cases "generate_loop rnd A N 0 []") auto
  have "loop_inv A N []" by (simp add: loop_inv_def)
  with generate_loop_partial[OF y] False obtain ws where
    ws: "y = Inr ws" "loop_inv A N ws" "length ws = N"
    by (auto simp: A_def)
  from assms y ws(1) have "result = Inr (if n > length A ^ 4
        then [TooManyWords n (length A ^ 4)] else [], ws)"
    unfolding unf by simp
  with ws(2,3) show ?thesis
    unfolding A_def[symmetric]
    by (intro exI[of _ ws]) (auto simp: loop_inv_def words_over_def N_def)
qed

section \<open>The lexicon\<close>

lemma random_word_ok:
  "first \<noteq> [] \<Longrightarrow> \<exists>w. random_word rnd k first = Inr w \<and> length w = 4 \<and> set w \<subseteq> set first"
  using random_word_words_over[of rnd k first]
  by (auto simp: random_word_Inr words_over_def simp del: set_simps)

lemma assign_tokens_ok:
  assumes "i + length items \<le> length toks \<or> (toks \<noteq> [] \<and> hd toks \<noteq> [])"
    and "distinct (map fst items)"
  shows "\<exists>lx'. assign_tokens rnd k toks i items lx = Inr lx' \<and>
           fst ` set lx' = fst ` set lx \<union> fst ` set items \<and>
           (distinct (map fst lx) \<longrightarrow> distinct (map fst lx')) \<and>
           (\<forall>w. w \<notin> fst ` set items \<longrightarrow> map_of lx' w = map_of lx w) \<and>
           (\<forall>j<length items. \<exists>tok. map_of lx' (fst (items ! j)) = Some tok \<and>
              (if i + j < length toks then tok = toks ! (i + j) else fallback_ok toks tok))"
  using assms
proof (induction items arbitrary: k i lx)
  case Nil
  then show ?case by simp
next
  case (Cons item rest)
  obtain w info where item: "item = (w, info)" by (cases item)
  from Cons.prems have pre: "Suc i + length rest \<le> length toks \<or> (toks \<noteq> [] \<and> hd toks \<noteq> [])"
    and d: "distinct (map fst rest)" and wn: "w \<notin> fst ` set rest"
    by (auto simp: item)
  have "\<exists>k' tok. assign_tokens rnd k toks i (item # rest) lx =
          assign_tokens rnd k' toks (Suc i) rest (AList.update w tok lx) \<and>
          (if i < length toks then tok = toks ! i else fallback_ok toks tok)"
  proof (cases "i < length toks")
    case True
    then show ?thesis by (auto simp: item)
  next
    case False
    with Cons.prems obtain first more where toks: "toks = first # more" "first \<noteq> []"
      by (cases toks) auto
    from random_word_ok[OF toks(2), of rnd k] obtain u where
      u: "random_word rnd k first = Inr u" "length u = 4" "set u \<subseteq> set first" by blast
    with False toks show ?thesis
      by (intro exI[of _ "k + 4"] exI[of _ u]) (simp add: item fallback_ok_def)
  qed
  then obtain k' tok where
    step: "assign_tokens rnd k toks i (item # rest) lx =
           assign_tokens rnd k' toks (Suc i) rest (AList.update w tok lx)"
    and tok: "if i < length toks then tok = toks ! i else fallback_ok toks tok"
    by blast
  from Cons.IH[OF pre d, of k' "AList.update w tok lx"] obtain lx' where
    r: "assign_tokens rnd k' toks (Suc i) rest (AList.update w tok lx) = Inr lx'"
    and keys: "fst ` set lx' = fst ` set (AList.update w tok lx) \<union> fst ` set rest"
    and dist: "distinct (map fst (AList.update w tok lx)) \<longrightarrow> distinct (map fst lx')"
    and other: "\<forall>x. x \<notin> fst ` set rest \<longrightarrow> map_of lx' x = map_of (AList.update w tok lx) x"
    and toks': "\<forall>j<length rest. \<exists>t. map_of lx' (fst (rest ! j)) = Some t \<and>
              (if Suc i + j < length toks then t = toks ! (Suc i + j) else fallback_ok toks t)"
    by blast
  have w: "map_of lx' w = Some tok" using other wn by (simp add: update_conv')
  have "\<exists>t. map_of lx' (fst ((item # rest) ! j)) = Some t \<and>
              (if i + j < length toks then t = toks ! (i + j) else fallback_ok toks t)"
    if "j < length (item # rest)" for j
  proof (cases j)
    case 0
    with w tok show ?thesis by (simp add: item)
  next
    case (Suc j')
    with that toks'[rule_format, of j'] show ?thesis by auto
  qed
  moreover have "\<forall>x. x \<notin> fst ` set (item # rest) \<longrightarrow> map_of lx' x = map_of lx x"
    using other by (auto simp: item update_conv')
  moreover have "fst ` set lx' = fst ` set lx \<union> fst ` set (item # rest)"
    using keys by (auto simp: item dom_update)
  moreover have "distinct (map fst lx) \<longrightarrow> distinct (map fst lx')"
    using dist by (simp add: distinct_update)
  ultimately show ?case unfolding step r by blast
qed

lemma sort_by_count_props:
  "set (sort_by_count v) = set v" "length (sort_by_count v) = length v"
  "distinct (map fst v) \<Longrightarrow> distinct (map fst (sort_by_count v))"
  "sorted_wrt (\<lambda>a b. count (snd a) \<ge> count (snd b)) (sort_by_count v)"
  "filter (\<lambda>e. count (snd e) = c) (sort_by_count v) = filter (\<lambda>e. count (snd e) = c) v"
proof -
  show "set (sort_by_count v) = set v" "length (sort_by_count v) = length v"
    by (simp_all add: sort_by_count_def)
  have "sorted (map (\<lambda>item. - count (snd item)) (sort_by_count v))"
    unfolding sort_by_count_def by (rule sorted_sort_key)
  then show "sorted_wrt (\<lambda>a b. count (snd a) \<ge> count (snd b)) (sort_by_count v)"
    by (simp add: sorted_map sorted_wrt_iff_nth_less)
  have "filter (\<lambda>e. - count (snd e) = - c) (sort_by_count v) =
        filter (\<lambda>e. - count (snd e) = - c) v"
    unfolding sort_by_count_def by (rule sort_key_stable)
  then show "filter (\<lambda>e. count (snd e) = c) (sort_by_count v) =
             filter (\<lambda>e. count (snd e) = c) v" by simp
  show "distinct (map fst (sort_by_count v))" if "distinct (map fst v)"
    using that by (simp add: distinct_map sort_by_count_def)
qed

text \<open>
  C1, as amended. For every vocabulary (a dictionary: its keys are distinct), every random
  source and every token list that is at least as long as the vocabulary, or else is not
  empty and starts with a non-empty token, \<open>create_lexicon\<close> returns a lexicon whose keys are
  exactly the words of the vocabulary, each once; the word of the \<open>i\<close>-th entry in
  descending order of count has the \<open>i\<close>-th token, and from the end of the token list on a
  fallback token of four characters of the first token. The order is the vocabulary sorted
  by descending count, entries of equal count staying in the order of the dictionary.
\<close>

theorem create_lexicon_assigns_tokens:
  assumes "distinct (map fst vocabulary)"
    and "length vocabulary \<le> length nonsense_words \<or>
         (nonsense_words \<noteq> [] \<and> hd nonsense_words \<noteq> [])"
  shows "\<exists>lexicon.
           create_lexicon rnd vocabulary nonsense_words = Inr lexicon \<and>
           fst ` set lexicon = fst ` set vocabulary \<and>
           distinct (map fst lexicon) \<and>
           (\<forall>i<length vocabulary. \<exists>tok.
              map_of lexicon (fst (sort_by_count vocabulary ! i)) = Some tok \<and>
              (if i < length nonsense_words then tok = nonsense_words ! i
               else fallback_ok nonsense_words tok)) \<and>
           set (sort_by_count vocabulary) = set vocabulary \<and>
           length (sort_by_count vocabulary) = length vocabulary \<and>
           sorted_wrt (\<lambda>a b. count (snd a) \<ge> count (snd b)) (sort_by_count vocabulary) \<and>
           (\<forall>c. filter (\<lambda>e. count (snd e) = c) (sort_by_count vocabulary) =
                filter (\<lambda>e. count (snd e) = c) vocabulary)"
proof -
  have pre: "0 + length (sort_by_count vocabulary) \<le> length nonsense_words \<or>
      (nonsense_words \<noteq> [] \<and> hd nonsense_words \<noteq> [])"
    using assms(2) by (simp add: sort_by_count_props)
  from assign_tokens_ok[OF pre sort_by_count_props(3)[OF assms(1)], of rnd 0 "[]"]
  obtain lexicon where L:
    "assign_tokens rnd 0 nonsense_words 0 (sort_by_count vocabulary) [] = Inr lexicon \<and>
     fst ` set lexicon = fst ` set ([]::lexicon) \<union> fst ` set (sort_by_count vocabulary) \<and>
     (distinct (map fst ([]::lexicon)) \<longrightarrow> distinct (map fst lexicon)) \<and>
     (\<forall>w. w \<notin> fst ` set (sort_by_count vocabulary) \<longrightarrow> map_of lexicon w = map_of ([]::lexicon) w) \<and>
     (\<forall>j<length (sort_by_count vocabulary). \<exists>tok.
        map_of lexicon (fst (sort_by_count vocabulary ! j)) = Some tok \<and>
        (if 0 + j < length nonsense_words then tok = nonsense_words ! (0 + j)
         else fallback_ok nonsense_words tok))" ..
  note r = L[THEN conjunct1]
    and keys = L[THEN conjunct2, THEN conjunct1]
    and dist = L[THEN conjunct2, THEN conjunct2, THEN conjunct1]
    and toks = L[THEN conjunct2, THEN conjunct2, THEN conjunct2, THEN conjunct2]
  from toks have "\<forall>i<length vocabulary. \<exists>tok.
        map_of lexicon (fst (sort_by_count vocabulary ! i)) = Some tok \<and>
        (if i < length nonsense_words then tok = nonsense_words ! i
         else fallback_ok nonsense_words tok)"
    by (simp only: add_0 sort_by_count_props(2))
  with r keys dist show ?thesis
    by (intro exI[of _ lexicon]) (simp add: create_lexicon_def sort_by_count_props)
qed

text \<open>Three words and two tokens: the least frequent word gets a fallback token.\<close>

theorem create_lexicon_assigns_tokens_witness:
  "distinct (map fst
     [(''the'', \<lparr>original = ''the'', preserve_caps = False, count = 50\<rparr>),
      (''said'', \<lparr>original = ''said'', preserve_caps = False, count = 10\<rparr>),
      (''lord'', \<lparr>original = ''lord'', preserve_caps = False, count = 30\<rparr>)]) \<and>
   [''abcd'', ''bbbb''] \<noteq> [] \<and> hd [''abcd'', ''bbbb''] \<noteq> [] \<and>
   (\<exists>lexicon.
      create_lexicon (\<lambda>k. k)
        [(''the'', \<lparr>original = ''the'', preserve_caps = False, count = 50\<rparr>),
         (''said'', \<lparr>original = ''said'', preserve_caps = False, count = 10\<rparr>),
         (''lord'', \<lparr>original = ''lord'', preserve_caps = False, count = 30\<rparr>)]
        [''abcd'', ''bbbb''] = Inr lexicon \<and>
      fst ` set lexicon = {''the'', ''said'', ''lord''} \<and>
      distinct (map fst lexicon))"
  using create_lexicon_assigns_tokens[of
      "[(''the'', \<lparr>original = ''the'', preserve_caps = False, count = 50\<rparr>),
        (''said'', \<lparr>original = ''said'', preserve_caps = False, count = 10\<rparr>),
        (''lord'', \<lparr>original = ''lord'', preserve_caps = False, count = 30\<rparr>)]"
      "[''abcd'', ''bbbb'']" "\<lambda>k. k"]
  by auto

text \<open>
  C1 as stated fails for the empty token list: with one word in the vocabulary there is no
  first token to build a fallback from, and \<open>nonsense_words[0]\<close> raises \<open>IndexError\<close>.
\<close>

theorem create_lexicon_raises_without_tokens:
  "create_lexicon (\<lambda>k. 0)
     [(''the'', \<lparr>original = ''the'', preserve_caps = False, count = 1\<rparr>)] [] =
   Inl IndexError"
  by (simp add: create_lexicon_def sort_by_count_def)

lemma create_lexicon_example:
  "create_lexicon (\<lambda>k. k)
        [(''the'', \<lparr>original = ''the'', preserve_caps = False, count = 50\<rparr>),
         (''said'', \<lparr>original = ''said'', preserve_caps = False, count = 10\<rparr>),
         (''lord'', \<lparr>original = ''lord'', preserve_caps = False, count = 30\<rparr>)]
        [''abcd'', ''bbbb''] =
   Inr [(''the'', ''abcd''), (''lord'', ''bbbb''), (''said'', ''abcd'')]"
  by code_simp
section \<open>Idempotence of the passes after the replacement\<close>

lemma chars_ok_classes:
  assumes "chars_ok U"
  shows "cls_space U c \<Longrightarrow> \<not> cls_word U c"
    and "cls_punct U c \<Longrightarrow> \<not> cls_word U c"
    and "cls_punct U c \<Longrightarrow> \<not> cls_space U c"
    and "cls_code U c \<Longrightarrow> cls_word U c"
    and "cls_code U c \<Longrightarrow> \<not> cls_space U c"
  using assms unfolding chars_ok_def by blast+

lemma chars_ok_special:
  assumes "chars_ok U"
  shows "\<not> cls_word U (chr_backslash U)" "\<not> cls_space U (chr_backslash U)"
    "\<not> cls_punct U (chr_backslash U)" "\<not> cls_code U (chr_backslash U)"
    "\<not> cls_word U (chr_quote U)" "\<not> cls_space U (chr_quote U)"
    "chr_quote U \<noteq> chr_backslash U"
    "cls_space U (chr_space U)" "cls_space U (chr_newline U)"
    "cls_word U (chr_i U)" "cls_word U (chr_d U)"
    "\<not> cls_code U (chr_space U)" "\<not> cls_code U (chr_newline U)"
    "chr_i U \<noteq> chr_backslash U" "chr_d U \<noteq> chr_backslash U"
    "chr_space U \<noteq> chr_backslash U"
  using assms unfolding chars_ok_def by metis+

lemma sub_from_id_pre:
  "sub_from (id_line_matcher U) r k pre s = sub_from (id_line_matcher U) r k pre' s"
proof (induction s arbitrary: k pre pre')
  case Nil
  then show ?case by simp
next
  case (Cons c cs)
  show ?case
  proof (cases k)
    case 0
    have "id_line_matcher U pre (c # cs) = id_line_matcher U pre' (c # cs)"
      by (simp add: id_line_matcher_def)
    with 0 Cons.IH[of _ "c # pre" "c # pre'"] show ?thesis
      by (simp split: option.splits)
  next
    case (Suc j)
    with Cons.IH[of j "c # pre" "c # pre'"] show ?thesis by simp
  qed
qed

lemma sub_from_skip:
  "k \<le> length s \<Longrightarrow>
   sub_from (id_line_matcher U) r k pre s = sub_from (id_line_matcher U) r 0 [] (drop k s)"
proof (induction s arbitrary: k pre)
  case Nil
  then show ?case by simp
next
  case (Cons c cs)
  show ?case
  proof (cases k)
    case 0
    then show ?thesis using sub_from_id_pre[of U r 0 pre "c # cs" "[]"] by simp
  next
    case (Suc j)
    with Cons show ?thesis by simp
  qed
qed

lemma id_line_matcher_parts:
  "id_line_matcher U pre s =
     (case id_line_parts U s of
        None \<Rightarrow> None
      | Some (code, rest) \<Rightarrow> Some (length s - length rest))"
  by (auto simp: id_line_matcher_def id_line_parts_def split: list.splits)

lemma id_line_parts_shape:
  assumes "id_line_parts U s = Some (code, rest)"
  shows "\<exists>ws junk. s = chr_backslash U # chr_i U # chr_d U # ws @ code @ junk @ rest \<and>
           ws \<noteq> [] \<and> list_all (cls_space U) ws \<and> code \<noteq> [] \<and> list_all (cls_code U) code \<and>
           (junk = [] \<or> \<not> cls_code U (hd junk)) \<and> chr_newline U \<notin> set junk \<and>
           (rest = [] \<or> hd rest = chr_newline U)"
proof -
  from assms obtain r where s: "s = chr_backslash U # chr_i U # chr_d U # r"
    and ws: "takeWhile (cls_space U) r \<noteq> []"
    and code: "code = takeWhile (cls_code U) (dropWhile (cls_space U) r)" "code \<noteq> []"
    and rest: "rest = dropWhile (\<lambda>x. x \<noteq> chr_newline U)
                       (dropWhile (cls_code U) (dropWhile (cls_space U) r))"
    by (auto simp: id_line_parts_def split: list.splits if_splits)
  define r1 where "r1 = dropWhile (cls_space U) r"
  define r2 where "r2 = dropWhile (cls_code U) r1"
  define junk where "junk = takeWhile (\<lambda>x. x \<noteq> chr_newline U) r2"
  have "r = takeWhile (cls_space U) r @ r1" by (simp add: r1_def)
  moreover have "r1 = code @ r2" by (simp add: code r1_def r2_def)
  moreover have "r2 = junk @ rest" by (simp add: junk_def rest r1_def r2_def)
  ultimately have
    "s = chr_backslash U # chr_i U # chr_d U # takeWhile (cls_space U) r @ code @ junk @ rest"
    using s by simp
  moreover have "list_all (cls_space U) (takeWhile (cls_space U) r)"
    by (simp add: list_all_iff) (meson set_takeWhileD)
  moreover have "list_all (cls_code U) code"
    unfolding code by (simp add: list_all_iff) (meson set_takeWhileD)
  moreover have "junk = [] \<or> \<not> cls_code U (hd junk)"
  proof (cases r2)
    case Nil
    then show ?thesis by (simp add: junk_def)
  next
    case (Cons x xs)
    then have "\<not> cls_code U x"
      unfolding r2_def by (metis dropWhile_eq_Cons_conv)
    with Cons show ?thesis by (auto simp: junk_def)
  qed
  moreover have "chr_newline U \<notin> set junk"
    unfolding junk_def
    using set_takeWhileD[of "chr_newline U" "\<lambda>x. x \<noteq> chr_newline U" r2] by blast
  moreover have "rest = [] \<or> hd rest = chr_newline U"
    unfolding rest by (metis (mono_tags, lifting) hd_dropWhile)
  ultimately show ?thesis using ws code(2) by blast
qed

lemma takeWhile_run:
  assumes "list_all P xs" "ys = [] \<or> \<not> P (hd ys)"
  shows "takeWhile P (xs @ ys) = xs" "dropWhile P (xs @ ys) = ys"
proof -
  have t: "takeWhile P ys = []" and d: "dropWhile P ys = ys"
    using assms(2) by (cases ys; simp)+
  from assms(1) show "takeWhile P (xs @ ys) = xs" "dropWhile P (xs @ ys) = ys"
    by (simp_all add: list_all_iff t d)
qed

lemma id_line_parts_repl:
  assumes ok: "chars_ok U" and parts: "id_line_parts U s = Some (code, rest)"
  shows "id_line_repl U (take (length s - length rest) s) =
           chr_backslash U # chr_i U # chr_d U # chr_space U # code"
    and "drop (length s - length rest) s = rest"
    and "length rest < length s"
proof -
  from id_line_parts_shape[OF parts] obtain ws junk where
    s: "s = chr_backslash U # chr_i U # chr_d U # ws @ code @ junk @ rest"
    and ws: "ws \<noteq> []" "list_all (cls_space U) ws"
    and code: "code \<noteq> []" "list_all (cls_code U) code"
    and junk: "junk = [] \<or> \<not> cls_code U (hd junk)"
    by blast
  define pre where "pre = chr_backslash U # chr_i U # chr_d U # ws @ code @ junk"
  have s': "s = pre @ rest" by (simp add: s pre_def)
  have n: "length s - length rest = length pre" by (simp add: s')
  have tk: "take (length s - length rest) s =
            chr_backslash U # chr_i U # chr_d U # ws @ code @ junk"
    unfolding n by (simp add: s') (simp add: pre_def)
  have "\<not> cls_space U (hd (code @ junk))"
    using code by (cases code) (auto simp: chars_ok_classes(5)[OF ok])
  then have d: "dropWhile (cls_space U) (ws @ code @ junk) = code @ junk"
    using takeWhile_run(2)[OF ws(2), of "code @ junk"] code(1) by simp
  have "takeWhile (cls_code U) (code @ junk) = code"
    by (rule takeWhile_run(1)[OF code(2) junk])
  with d show "id_line_repl U (take (length s - length rest) s) =
      chr_backslash U # chr_i U # chr_d U # chr_space U # code"
    by (simp add: tk id_line_repl_def)
  show "drop (length s - length rest) s = rest"
    unfolding n by (simp add: s')
  show "length rest < length s" by (simp add: s)
qed

lemma clean_id_lines_Nil: "clean_id_lines U [] = []"
  by (simp add: clean_id_lines_def re_sub_def)

lemma clean_id_lines_Cons:
  assumes ok: "chars_ok U"
  shows "clean_id_lines U (c # cs) =
     (case id_line_parts U (c # cs) of
        None \<Rightarrow> c # clean_id_lines U cs
      | Some (code, rest) \<Rightarrow>
          chr_backslash U # chr_i U # chr_d U # chr_space U # code @ clean_id_lines U rest)"
proof (cases "id_line_parts U (c # cs)")
  case None
  then have "id_line_matcher U [] (c # cs) = None" by (simp add: id_line_matcher_parts)
  then have "sub_from (id_line_matcher U) (id_line_repl U) 0 [] (c # cs) =
             c # sub_from (id_line_matcher U) (id_line_repl U) 0 [c] cs" by simp
  also have "\<dots> = c # sub_from (id_line_matcher U) (id_line_repl U) 0 [] cs"
    using sub_from_id_pre[of U "id_line_repl U" 0 "[c]" cs "[]"] by simp
  finally show ?thesis using None by (simp add: clean_id_lines_def re_sub_def)
next
  case (Some cr)
  obtain code rest where cr: "cr = (code, rest)" by (cases cr)
  note parts = Some[unfolded cr]
  define n where "n = length (c # cs) - length rest"
  from id_line_parts_repl[OF ok parts] have
    repl: "id_line_repl U (take n (c # cs)) =
           chr_backslash U # chr_i U # chr_d U # chr_space U # code"
    and dr: "drop n (c # cs) = rest" and lt: "length rest < length (c # cs)"
    by (simp_all add: n_def)
  from lt have n1: "n - 1 \<le> length cs" and npos: "0 < n" by (simp_all add: n_def)
  have m: "id_line_matcher U [] (c # cs) = Some n"
    using parts by (simp add: id_line_matcher_parts n_def)
  have "sub_from (id_line_matcher U) (id_line_repl U) 0 [] (c # cs) =
        id_line_repl U (take n (c # cs)) @
          sub_from (id_line_matcher U) (id_line_repl U) (n - 1) [c] cs"
    using m by simp
  also have "sub_from (id_line_matcher U) (id_line_repl U) (n - 1) [c] cs =
             sub_from (id_line_matcher U) (id_line_repl U) 0 [] (drop (n - 1) cs)"
    by (rule sub_from_skip[OF n1])
  also have "drop (n - 1) cs = rest"
    using dr npos by (cases n) simp_all
  finally show ?thesis
    using parts repl by (simp add: clean_id_lines_def re_sub_def)
qed

lemma id_line_parts_no_backslash:
  "c \<noteq> chr_backslash U \<Longrightarrow> id_line_parts U (c # cs) = None"
  by (simp add: id_line_parts_def split: list.splits)

lemma id_line_parts_Nil: "id_line_parts U [] = None"
  by (simp add: id_line_parts_def)

lemma clean_id_lines_copy:
  "chars_ok U \<Longrightarrow> c \<noteq> chr_backslash U \<Longrightarrow>
   clean_id_lines U (c # cs) = c # clean_id_lines U cs"
  by (simp add: clean_id_lines_Cons id_line_parts_no_backslash)

lemma clean_id_lines_hd:
  assumes ok: "chars_ok U"
  shows "\<exists>out. clean_id_lines U (c # cs) = c # out"
proof (cases "id_line_parts U (c # cs)")
  case None
  then show ?thesis by (simp add: clean_id_lines_Cons[OF ok])
next
  case (Some cr)
  then have "c = chr_backslash U" using id_line_parts_no_backslash[of c U cs] by auto
  with Some show ?thesis by (cases cr) (simp add: clean_id_lines_Cons[OF ok])
qed

lemma clean_id_lines_run:
  assumes ok: "chars_ok U" and nb: "\<not> P (chr_backslash U)"
  shows "takeWhile P (clean_id_lines U s) = takeWhile P s"
    and "dropWhile P (clean_id_lines U s) = clean_id_lines U (dropWhile P s)"
proof (induction s)
  case Nil
  show "takeWhile P (clean_id_lines U []) = takeWhile P []"
    and "dropWhile P (clean_id_lines U []) = clean_id_lines U (dropWhile P [])"
    by (simp_all add: clean_id_lines_Nil)
next
  case (Cons c cs)
  {
    assume "P c"
    then have "c \<noteq> chr_backslash U" using nb by auto
    then have "clean_id_lines U (c # cs) = c # clean_id_lines U cs"
      by (rule clean_id_lines_copy[OF ok])
  }
  moreover obtain out where "clean_id_lines U (c # cs) = c # out"
    using clean_id_lines_hd[OF ok] by blast
  ultimately show "takeWhile P (clean_id_lines U (c # cs)) = takeWhile P (c # cs)"
    and "dropWhile P (clean_id_lines U (c # cs)) = clean_id_lines U (dropWhile P (c # cs))"
    using Cons by (cases "P c"; simp)+
qed

lemma id_line_parts_clean_None:
  assumes ok: "chars_ok U" and none: "id_line_parts U (c # cs) = None"
  shows "id_line_parts U (c # clean_id_lines U cs) = None"
proof (cases "c = chr_backslash U")
  case False
  then show ?thesis by (rule id_line_parts_no_backslash)
next
  case True
  show ?thesis
  proof (cases cs)
    case Nil
    then show ?thesis by (simp add: clean_id_lines_Nil id_line_parts_def)
  next
    case (Cons x xs)
    show ?thesis
    proof (cases "x = chr_i U")
      case False
      obtain out where "clean_id_lines U (x # xs) = x # out"
        using clean_id_lines_hd[OF ok] by blast
      with False Cons show ?thesis by (simp add: id_line_parts_def split: list.splits)
    next
      case xi: True
      then have cx: "clean_id_lines U (x # xs) = x # clean_id_lines U xs"
        by (intro clean_id_lines_copy[OF ok]) (simp add: chars_ok_special(14)[OF ok])
      show ?thesis
      proof (cases xs)
        case Nil
        with cx Cons show ?thesis by (simp add: clean_id_lines_Nil id_line_parts_def)
      next
        case (Cons y ys)
        note xs = this
        show ?thesis
        proof (cases "y = chr_d U")
          case False
          obtain out where "clean_id_lines U (y # ys) = y # out"
            using clean_id_lines_hd[OF ok] by blast
          with False cx xs \<open>cs = x # xs\<close> show ?thesis
            by (simp add: id_line_parts_def split: list.splits)
        next
          case yd: True
          then have cy: "clean_id_lines U (y # ys) = y # clean_id_lines U ys"
            by (intro clean_id_lines_copy[OF ok]) (simp add: chars_ok_special(15)[OF ok])
          have t1: "takeWhile (cls_space U) (clean_id_lines U ys) = takeWhile (cls_space U) ys"
            and d1: "dropWhile (cls_space U) (clean_id_lines U ys) =
                     clean_id_lines U (dropWhile (cls_space U) ys)"
            using clean_id_lines_run[OF ok, of "cls_space U" ys] chars_ok_special(2)[OF ok]
            by simp_all
          have t2: "takeWhile (cls_code U) (clean_id_lines U (dropWhile (cls_space U) ys)) =
                    takeWhile (cls_code U) (dropWhile (cls_space U) ys)"
            using clean_id_lines_run(1)[OF ok, of "cls_code U" "dropWhile (cls_space U) ys"]
              chars_ok_special(4)[OF ok] by simp
          from none True xi yd xs \<open>cs = x # xs\<close>
          have "\<not> (takeWhile (cls_space U) ys \<noteq> [] \<and>
                   takeWhile (cls_code U) (dropWhile (cls_space U) ys) \<noteq> [])"
            by (auto simp: id_line_parts_def split: if_splits)
          then show ?thesis
            using True xi yd xs \<open>cs = x # xs\<close> cx cy t1 d1 t2
            by (auto simp: id_line_parts_def)
        qed
      qed
    qed
  qed
qed

lemma id_normal_suffix: "id_normal U (xs @ ys) \<Longrightarrow> id_normal U ys"
  by (induction xs) auto

lemma id_normal_skip:
  "chr_backslash U \<notin> set xs \<Longrightarrow> id_normal U (xs @ ys) = id_normal U ys"
  by (induction xs) (auto simp: id_line_parts_no_backslash)

lemma clean_id_lines_fixed:
  assumes ok: "chars_ok U"
  shows "id_normal U t \<Longrightarrow> clean_id_lines U t = t"
proof (induction t rule: length_induct)
  case (1 t)
  show ?case
  proof (cases t)
    case Nil
    then show ?thesis by (simp add: clean_id_lines_Nil)
  next
    case (Cons c cs)
    show ?thesis
    proof (cases "id_line_parts U (c # cs)")
      case None
      moreover have "clean_id_lines U cs = cs"
        using 1 Cons by simp
      ultimately show ?thesis by (simp add: Cons clean_id_lines_Cons[OF ok])
    next
      case (Some cr)
      obtain code rest where cr: "cr = (code, rest)" by (cases cr)
      from "1.prems" Some cr Cons
      have t: "t = (chr_backslash U # chr_i U # chr_d U # chr_space U # code) @ rest"
        by simp
      then have "id_normal U rest" using "1.prems" id_normal_suffix by metis
      moreover have "length rest < length t" by (simp add: t)
      ultimately have "clean_id_lines U rest = rest" using "1.IH" by blast
      with Some cr t Cons show ?thesis by (simp add: clean_id_lines_Cons[OF ok])
    qed
  qed
qed

lemma code_chars_no_backslash:
  "chars_ok U \<Longrightarrow> list_all (cls_code U) code \<Longrightarrow> chr_backslash U \<notin> set code"
  using chars_ok_special(4) by (auto simp: list_all_iff)

lemma id_line_parts_normal_form:
  assumes ok: "chars_ok U" and code: "code \<noteq> []" "list_all (cls_code U) code"
    and rest: "rest = [] \<or> hd rest = chr_newline U"
  shows "id_line_parts U (chr_backslash U # chr_i U # chr_d U # chr_space U # code @ rest) =
           Some (code, rest)"
proof -
  have nl: "\<not> cls_code U (chr_newline U)"
    by (rule chars_ok_special(13)[OF ok])
  have r: "rest = [] \<or> \<not> cls_code U (hd rest)" using rest nl by auto
  have hs: "\<not> cls_space U (hd (code @ rest))"
    using code by (cases code) (auto simp: chars_ok_classes(5)[OF ok])
  have ne: "code @ rest \<noteq> []" using code by simp
  have sp: "cls_space U (chr_space U)" by (rule chars_ok_special(8)[OF ok])
  have tw: "takeWhile (cls_space U) (chr_space U # code @ rest) = [chr_space U]"
    and dw: "dropWhile (cls_space U) (chr_space U # code @ rest) = code @ rest"
    using hs ne sp by (cases "code @ rest"; simp)+
  have tc: "takeWhile (cls_code U) (code @ rest) = code"
    and dc: "dropWhile (cls_code U) (code @ rest) = rest"
    by (rule takeWhile_run[OF code(2) r])+
  have dn: "dropWhile (\<lambda>x. x \<noteq> chr_newline U) rest = rest"
    using rest by (cases rest) auto
  show ?thesis
    using code(1)
    by (simp add: id_line_parts_def tw dw tc dc dn del: takeWhile.simps dropWhile.simps)
qed

lemma clean_id_lines_normal:
  assumes ok: "chars_ok U"
  shows "id_normal U (clean_id_lines U s)"
proof (induction s rule: length_induct)
  case (1 s)
  show ?case
  proof (cases s)
    case Nil
    then show ?thesis by (simp add: clean_id_lines_Nil)
  next
    case (Cons c cs)
    show ?thesis
    proof (cases "id_line_parts U (c # cs)")
      case None
      have "id_normal U (clean_id_lines U cs)" using 1 Cons by simp
      moreover have "id_line_parts U (c # clean_id_lines U cs) = None"
        by (rule id_line_parts_clean_None[OF ok None])
      ultimately show ?thesis using None by (simp add: Cons clean_id_lines_Cons[OF ok])
    next
      case (Some cr)
      obtain code rest where cr: "cr = (code, rest)" by (cases cr)
      note parts = Some[unfolded cr]
      from id_line_parts_shape[OF parts] have
        code: "code \<noteq> []" "list_all (cls_code U) code"
        and rest: "rest = [] \<or> hd rest = chr_newline U"
        by blast+
      from id_line_parts_repl(3)[OF ok parts] have "length rest < length s"
        by (simp add: Cons)
      then have IH: "id_normal U (clean_id_lines U rest)" using 1 by blast
      have crest: "clean_id_lines U rest = [] \<or> hd (clean_id_lines U rest) = chr_newline U"
      proof (cases rest)
        case Nil
        then show ?thesis by (simp add: clean_id_lines_Nil)
      next
        case (Cons x xs)
        with rest have "x = chr_newline U" by simp
        moreover obtain out where "clean_id_lines U (x # xs) = x # out"
          using clean_id_lines_hd[OF ok] by blast
        ultimately show ?thesis using Cons by simp
      qed
      have out: "clean_id_lines U s =
          chr_backslash U # chr_i U # chr_d U # chr_space U # code @ clean_id_lines U rest"
        using parts by (simp add: Cons clean_id_lines_Cons[OF ok])
      have head: "id_line_parts U
            (chr_backslash U # chr_i U # chr_d U # chr_space U # code @ clean_id_lines U rest) =
          Some (code, clean_id_lines U rest)"
        by (rule id_line_parts_normal_form[OF ok code crest])
      have "chr_backslash U \<notin> set ([chr_i U, chr_d U, chr_space U] @ code)"
        using code_chars_no_backslash[OF ok code(2)] chars_ok_special(14,15,16)[OF ok]
        by auto
      then have "id_normal U (([chr_i U, chr_d U, chr_space U] @ code) @ clean_id_lines U rest)"
        using IH id_normal_skip by blast
      then have tail:
        "id_normal U (chr_i U # chr_d U # chr_space U # code @ clean_id_lines U rest)"
        by simp
      show ?thesis
        unfolding out using head tail
        by (simp del: id_normal.simps add: id_normal.simps(2)[of U "chr_backslash U"])
    qed
  qed
qed

lemma clean_id_lines_idem:
  "chars_ok U \<Longrightarrow> clean_id_lines U (clean_id_lines U s) = clean_id_lines U s"
  by (rule clean_id_lines_fixed[OF _ clean_id_lines_normal])

lemma spacing_pair_1: "chars_ok U \<Longrightarrow> spacing_pair U (cls_word U) (cls_punct U)"
  unfolding spacing_pair_def chars_ok_def by blast

lemma spacing_pair_2: "chars_ok U \<Longrightarrow> spacing_pair U (cls_punct U) (cls_word U)"
  unfolding spacing_pair_def chars_ok_def by blast

lemma spacing_pair_3: "chars_ok U \<Longrightarrow> spacing_pair U (\<lambda>c. c = chr_quote U) (cls_word U)"
  by (auto simp: spacing_pair_def chars_ok_def)

lemma spacing_pair_4:
  "chars_ok U \<Longrightarrow> spacing_pair U (cls_word U) (\<lambda>c. c = chr_backslash U)"
  by (auto simp: spacing_pair_def chars_ok_def)

lemma insert_spaces_hd: "\<exists>out. insert_spaces sp p q (c # cs) = c # out"
  by (cases cs) auto

lemma insert_spaces_copy:
  "\<not> p b \<Longrightarrow> insert_spaces sp p q (b # cs) = b # insert_spaces sp p q cs"
  by (cases cs) auto

lemma insert_spaces_local:
  assumes "\<forall>c. p c \<longrightarrow> \<not> q c"
  shows "insert_spaces sp p q (a # cs) =
           a # (if p a \<and> cs \<noteq> [] \<and> q (hd cs) then sp # insert_spaces sp p q cs
                else insert_spaces sp p q cs)"
proof (cases cs)
  case Nil
  then show ?thesis by simp
next
  case (Cons b cs')
  show ?thesis
  proof (cases "p a \<and> q b")
    case True
    then have "\<not> p b" using assms by blast
    then have "insert_spaces sp p q (b # cs') = b # insert_spaces sp p q cs'"
      by (rule insert_spaces_copy)
    with True Cons show ?thesis by simp
  next
    case False
    with Cons show ?thesis by auto
  qed
qed

lemma no_adjacent_Cons:
  "no_adjacent p q (a # xs) = ((xs = [] \<or> \<not> (p a \<and> q (hd xs))) \<and> no_adjacent p q xs)"
  by (cases xs) auto

lemma insert_spaces_hd_eq: "cs \<noteq> [] \<Longrightarrow> hd (insert_spaces sp p q cs) = hd cs"
  using insert_spaces_hd[of sp p q] by (cases cs) (auto, metis list.sel(1))

lemma insert_spaces_Nil_iff: "insert_spaces sp p q cs = [] \<longleftrightarrow> cs = []"
  using insert_spaces_hd[of sp p q] by (cases cs) (auto, metis list.distinct(1))

lemma spacing_pair_space:
  "chars_ok U \<Longrightarrow> spacing_pair U p q \<Longrightarrow> \<not> p (chr_space U) \<and> \<not> q (chr_space U)"
  using chars_ok_special(8) by (auto simp: spacing_pair_def)

lemma no_adjacent_after:
  assumes ok: "chars_ok U" and pair: "spacing_pair U p q"
  shows "no_adjacent p q (insert_spaces (chr_space U) p q s)"
proof (induction s)
  case Nil
  then show ?case by simp
next
  case (Cons a cs)
  from pair have dj: "\<forall>c. p c \<longrightarrow> \<not> q c"
    by (auto simp: spacing_pair_def)
  from spacing_pair_space[OF ok pair] have sp: "\<not> p (chr_space U)" "\<not> q (chr_space U)"
    by simp_all
  show ?case
    unfolding insert_spaces_local[OF dj]
    using Cons sp
    by (auto simp: no_adjacent_Cons insert_spaces_hd_eq insert_spaces_Nil_iff)
qed

lemma no_adjacent_kept:
  "\<not> p sp \<Longrightarrow> \<not> q sp \<Longrightarrow> no_adjacent p q s \<Longrightarrow>
   no_adjacent p q (insert_spaces sp p' q' s)"
proof (induction sp p' q' s rule: insert_spaces.induct)
  case (1 sp p' q' a b cs)
  then show ?case
    by (auto simp: no_adjacent_Cons insert_spaces_hd_eq insert_spaces_Nil_iff)
qed simp_all

lemma insert_spaces_fixed: "no_adjacent p q s \<Longrightarrow> insert_spaces sp p q s = s"
  by (induction sp p q s rule: insert_spaces.induct) auto

lemma spacing_passes_idem:
  assumes ok: "chars_ok U"
  shows "spacing_passes U (spacing_passes U t) = spacing_passes U t"
proof -
  let ?I1 = "insert_spaces (chr_space U) (cls_word U) (cls_punct U)"
  let ?I2 = "insert_spaces (chr_space U) (cls_punct U) (cls_word U)"
  let ?I3 = "insert_spaces (chr_space U) (\<lambda>c. c = chr_quote U) (cls_word U)"
  let ?I4 = "insert_spaces (chr_space U) (cls_word U) (\<lambda>c. c = chr_backslash U)"
  define u where "u = spacing_passes U t"
  have u: "u = ?I4 (?I3 (?I2 (?I1 t)))" by (simp add: u_def spacing_passes_eq)
  note p1 = spacing_pair_1[OF ok] and p2 = spacing_pair_2[OF ok]
    and p3 = spacing_pair_3[OF ok] and p4 = spacing_pair_4[OF ok]
  note s1 = spacing_pair_space[OF ok p1] and s2 = spacing_pair_space[OF ok p2]
    and s3 = spacing_pair_space[OF ok p3] and s4 = spacing_pair_space[OF ok p4]
  have n1: "no_adjacent (cls_word U) (cls_punct U) u"
    unfolding u
    by (intro no_adjacent_kept no_adjacent_after[OF ok p1]) (simp_all add: s1)
  have n2: "no_adjacent (cls_punct U) (cls_word U) u"
    unfolding u
    by (intro no_adjacent_kept no_adjacent_after[OF ok p2]) (simp_all add: s2)
  have n3: "no_adjacent (\<lambda>c. c = chr_quote U) (cls_word U) u"
    unfolding u
    by (intro no_adjacent_kept no_adjacent_after[OF ok p3]) (use s3 in simp_all)
  have n4: "no_adjacent (cls_word U) (\<lambda>c. c = chr_backslash U) u"
    unfolding u by (rule no_adjacent_after[OF ok p4])
  have "spacing_passes U u = ?I4 (?I3 (?I2 (?I1 u)))" by (simp add: spacing_passes_eq)
  also have "\<dots> = u"
    by (simp only: insert_spaces_fixed[OF n1] insert_spaces_fixed[OF n2]
        insert_spaces_fixed[OF n3] insert_spaces_fixed[OF n4])
  finally show ?thesis by (simp add: u_def)
qed

lemma insert_spaces_run_space:
  assumes "\<forall>c. P c \<longrightarrow> \<not> p c"
  shows "takeWhile P (insert_spaces sp p q s) = takeWhile P s"
    and "dropWhile P (insert_spaces sp p q s) = insert_spaces sp p q (dropWhile P s)"
proof (induction s)
  case Nil
  show "takeWhile P (insert_spaces sp p q []) = takeWhile P []"
    and "dropWhile P (insert_spaces sp p q []) = insert_spaces sp p q (dropWhile P [])"
    by simp_all
next
  case (Cons c cs)
  {
    assume "P c"
    then have "\<not> p c" using assms by auto
    then have "insert_spaces sp p q (c # cs) = c # insert_spaces sp p q cs"
      by (rule insert_spaces_copy)
  }
  moreover obtain out where "insert_spaces sp p q (c # cs) = c # out"
    using insert_spaces_hd[of sp p q c cs] by blast
  ultimately show "takeWhile P (insert_spaces sp p q (c # cs)) = takeWhile P (c # cs)"
    and "dropWhile P (insert_spaces sp p q (c # cs)) =
         insert_spaces sp p q (dropWhile P (c # cs))"
    using Cons by (cases "P c"; simp)+
qed

lemma insert_spaces_run_take:
  assumes dj: "\<forall>c. p c \<longrightarrow> \<not> q c"
    and inside: "\<forall>a b. P a \<and> P b \<longrightarrow> \<not> (p a \<and> q b)" and sp: "\<not> P sp"
  shows "takeWhile P (insert_spaces sp p q s) = takeWhile P s"
proof (induction s)
  case Nil
  then show ?case by simp
next
  case (Cons a cs)
  show ?case
  proof (cases "p a \<and> cs \<noteq> [] \<and> q (hd cs)")
    case True
    then have "P a \<longrightarrow> \<not> P (hd cs)" using inside by blast
    then have "P a \<longrightarrow> takeWhile P cs = []" using True by (cases cs) auto
    with True sp show ?thesis
      by (simp add: insert_spaces_local[OF dj])
  next
    case False
    then show ?thesis using Cons by (auto simp: insert_spaces_local[OF dj])
  qed
qed

lemma insert_spaces_block:
  "no_adjacent p q (xs @ take 1 ys) \<Longrightarrow>
   insert_spaces sp p q (xs @ ys) = xs @ insert_spaces sp p q ys"
proof (induction xs)
  case Nil
  then show ?case by simp
next
  case step: (Cons a xs)
  show ?case
  proof (cases "xs @ ys")
    case Nil
    then show ?thesis by simp
  next
    case (Cons b zs)
    then have "hd (xs @ take 1 ys) = b" "xs @ take 1 ys \<noteq> []"
      by (cases xs; cases ys; simp)+
    with step.prems have nab: "\<not> (p a \<and> q b)" and rest: "no_adjacent p q (xs @ take 1 ys)"
      by (auto simp: no_adjacent_Cons)
    have "insert_spaces sp p q (a # b # zs) = a # insert_spaces sp p q (b # zs)"
      using nab by auto
    with Cons step.IH[OF rest] show ?thesis by simp
  qed
qed

lemma id_line_parts_short:
  "id_line_parts U [a] = None" "id_line_parts U [a, b] = None"
  "b \<noteq> chr_i U \<Longrightarrow> id_line_parts U (a # b # zs) = None"
  "c \<noteq> chr_d U \<Longrightarrow> id_line_parts U (a # b # c # zs) = None"
  by (simp_all add: id_line_parts_def split: list.splits)

lemma id_line_parts_cond:
  "id_line_parts U (chr_backslash U # chr_i U # chr_d U # r) = None \<longleftrightarrow>
   \<not> (takeWhile (cls_space U) r \<noteq> [] \<and>
      takeWhile (cls_code U) (dropWhile (cls_space U) r) \<noteq> [])"
  by (simp add: id_line_parts_def)

lemma id_line_parts_spaced_None:
  assumes ok: "chars_ok U" and sp: "spacing_pair U p q"
    and none: "id_line_parts U (chr_backslash U # cs) = None"
  shows "id_line_parts U (chr_backslash U # insert_spaces (chr_space U) p q cs) = None"
proof -
  from sp have dj: "\<forall>c. p c \<longrightarrow> \<not> q c"
    and a2: "\<forall>c. cls_space U c \<longrightarrow> \<not> p c \<and> \<not> q c"
    and a4: "\<forall>a b. cls_word U a \<and> cls_word U b \<longrightarrow> \<not> (p a \<and> q b)"
    by (auto simp: spacing_pair_def)
  note loc = insert_spaces_local[OF dj]
  show ?thesis
  proof (cases cs)
    case Nil
    then show ?thesis by (simp add: id_line_parts_short)
  next
    case c1: (Cons x xs)
    show ?thesis
    proof (cases "x = chr_i U")
      case False
      then show ?thesis unfolding c1 loc by (simp add: id_line_parts_short)
    next
      case xi: True
      show ?thesis
      proof (cases "p x \<and> xs \<noteq> [] \<and> q (hd xs)")
        case True
        have "chr_space U \<noteq> chr_d U"
          using chars_ok_special(8,11)[OF ok] chars_ok_classes(1)[OF ok] by metis
        with True show ?thesis unfolding c1 loc by (simp add: id_line_parts_short xi)
      next
        case noins: False
        show ?thesis
        proof (cases xs)
          case Nil
          then show ?thesis unfolding c1 loc by (simp add: id_line_parts_short)
        next
          case c2: (Cons y ys)
          show ?thesis
          proof (cases "y = chr_d U")
            case False
            then show ?thesis
              unfolding c1 loc c2 using noins c2 by (auto simp: id_line_parts_short)
          next
            case yd: True
            have out: "insert_spaces (chr_space U) p q cs =
                chr_i U # chr_d U #
                  (if p y \<and> ys \<noteq> [] \<and> q (hd ys)
                   then chr_space U # insert_spaces (chr_space U) p q ys
                   else insert_spaces (chr_space U) p q ys)"
              unfolding c1 loc c2 using noins c2 xi yd by simp
            from none have cond: "\<not> (takeWhile (cls_space U) ys \<noteq> [] \<and>
                     takeWhile (cls_code U) (dropWhile (cls_space U) ys) \<noteq> [])"
              unfolding c1 c2 xi yd by (simp add: id_line_parts_cond)
            show ?thesis
            proof (cases "p y \<and> ys \<noteq> [] \<and> q (hd ys)")
              case True
              then obtain z zs where ys: "ys = z # zs" and qz: "q z" by (cases ys) auto
              from True yd a4 chars_ok_special(11)[OF ok] qz have "\<not> cls_word U z" by blast
              then have nc: "\<not> cls_code U z" using chars_ok_classes(4)[OF ok] by blast
              from a2 qz have ns: "\<not> cls_space U z" by blast
              obtain o' where o': "insert_spaces (chr_space U) p q (z # zs) = z # o'"
                using insert_spaces_hd[of "chr_space U" p q z zs] by blast
              show ?thesis
                unfolding out using True nc ns
                by (simp add: id_line_parts_cond ys o' chars_ok_special(8)[OF ok])
            next
              case False
              have t1: "takeWhile (cls_space U) (insert_spaces (chr_space U) p q ys) =
                        takeWhile (cls_space U) ys"
                and d1: "dropWhile (cls_space U) (insert_spaces (chr_space U) p q ys) =
                         insert_spaces (chr_space U) p q (dropWhile (cls_space U) ys)"
                using insert_spaces_run_space[of "cls_space U" p "chr_space U" q ys] a2
                by simp_all
              have t2: "takeWhile (cls_code U)
                          (insert_spaces (chr_space U) p q (dropWhile (cls_space U) ys)) =
                        takeWhile (cls_code U) (dropWhile (cls_space U) ys)"
              proof (rule insert_spaces_run_take[where P = "cls_code U" and p = p and q = q])
                show "\<forall>c. p c \<longrightarrow> \<not> q c" by (rule dj)
                show "\<forall>a b. cls_code U a \<and> cls_code U b \<longrightarrow> \<not> (p a \<and> q b)"
                  using a4 chars_ok_classes(4)[OF ok] by blast
                show "\<not> cls_code U (chr_space U)" by (rule chars_ok_special(12)[OF ok])
              qed
              show ?thesis
                unfolding out using False cond
                by (auto simp: id_line_parts_cond t1 d1 t2)
            qed
          qed
        qed
      qed
    qed
  qed
qed

lemma no_adjacent_words:
  assumes a4: "\<forall>a b. W a \<and> W b \<longrightarrow> \<not> (p a \<and> q b)"
  shows "list_all W xs \<Longrightarrow> no_adjacent p q xs"
    and "list_all W xs \<Longrightarrow> \<not> q z \<Longrightarrow> no_adjacent p q (xs @ [z])"
proof (induction xs)
  case Nil
  show "no_adjacent p q []" and "no_adjacent p q ([] @ [z])" by simp_all
next
  case (Cons a xs)
  {
    assume w: "list_all W (a # xs)"
    then have "xs \<noteq> [] \<Longrightarrow> W (hd xs)" by (cases xs) auto
    with w a4 have h: "xs = [] \<or> \<not> (p a \<and> q (hd xs))" by auto
    with w Cons(1) show "no_adjacent p q (a # xs)" by (simp add: no_adjacent_Cons)
    assume z: "\<not> q z"
    from h z have "\<not> (p a \<and> q (hd (xs @ [z])))" by (cases xs) auto
    with w z Cons(2) show "no_adjacent p q ((a # xs) @ [z])"
      by (simp add: no_adjacent_Cons)
  }
qed

lemma no_adjacent_id_block:
  assumes ok: "chars_ok U" and sp: "spacing_pair U p q"
    and code: "code \<noteq> []" "list_all (cls_code U) code"
    and rest: "rest = [] \<or> hd rest = chr_newline U"
  shows "no_adjacent p q (([chr_i U, chr_d U, chr_space U] @ code) @ take 1 rest)"
proof -
  from sp have a2: "\<forall>c. cls_space U c \<longrightarrow> \<not> p c \<and> \<not> q c"
    and a4: "\<forall>a b. cls_word U a \<and> cls_word U b \<longrightarrow> \<not> (p a \<and> q b)"
    by (auto simp: spacing_pair_def)
  have w: "list_all (cls_word U) code"
    using code(2) chars_ok_classes(4)[OF ok] by (auto simp: list_all_iff)
  have t: "take 1 rest = [] \<or> take 1 rest = [chr_newline U]"
    using rest by (cases rest) auto
  have qn: "\<not> q (chr_newline U)" using a2 chars_ok_special(9)[OF ok] by blast
  have tail: "no_adjacent p q (code @ take 1 rest)"
    using t no_adjacent_words[of "cls_word U" p q, OF a4 w] qn by auto
  have "\<not> (p (chr_i U) \<and> q (chr_d U))" using a4 chars_ok_special(10,11)[OF ok] by blast
  moreover have "\<not> q (chr_space U)" "\<not> p (chr_space U)"
    using a2 chars_ok_special(8)[OF ok] by blast+
  ultimately show ?thesis
    using tail code(1) by (cases code) (simp_all add: no_adjacent_Cons)
qed

lemma insert_spaces_normal:
  assumes ok: "chars_ok U" and sp: "spacing_pair U p q"
  shows "id_normal U t \<Longrightarrow> id_normal U (insert_spaces (chr_space U) p q t)"
proof (induction t)
  case Nil
  then show ?case by simp
next
  case (Cons c cs)
  from sp have dj: "\<forall>c. p c \<longrightarrow> \<not> q c" and a3: "\<not> p (chr_backslash U)"
    by (auto simp: spacing_pair_def)
  from Cons have IH: "id_normal U (insert_spaces (chr_space U) p q cs)" by simp
  have sb: "chr_space U \<noteq> chr_backslash U" by (rule chars_ok_special(16)[OF ok])
  show ?case
  proof (cases "c = chr_backslash U")
    case False
    then show ?thesis
      using IH sb by (simp add: insert_spaces_local[OF dj] id_line_parts_no_backslash)
  next
    case True
    then have out: "insert_spaces (chr_space U) p q (c # cs) =
        chr_backslash U # insert_spaces (chr_space U) p q cs"
      using a3 by (simp add: insert_spaces_copy)
    show ?thesis
    proof (cases "id_line_parts U (chr_backslash U # cs)")
      case None
      from id_line_parts_spaced_None[OF ok sp None] IH show ?thesis
        unfolding out by simp
    next
      case (Some cr)
      obtain code rest where cr: "cr = (code, rest)" by (cases cr)
      note parts = Some[unfolded cr]
      from id_line_parts_shape[OF parts] have
        code: "code \<noteq> []" "list_all (cls_code U) code"
        and rest: "rest = [] \<or> hd rest = chr_newline U"
        by blast+
      from Cons.prems True parts
      have cs: "cs = ([chr_i U, chr_d U, chr_space U] @ code) @ rest" by simp
      have ins: "insert_spaces (chr_space U) p q cs =
          ([chr_i U, chr_d U, chr_space U] @ code) @ insert_spaces (chr_space U) p q rest"
        unfolding cs by (rule insert_spaces_block[OF no_adjacent_id_block[OF ok sp code rest]])
      have r': "insert_spaces (chr_space U) p q rest = [] \<or>
                hd (insert_spaces (chr_space U) p q rest) = chr_newline U"
        using rest by (cases "rest = []") (simp_all add: insert_spaces_hd_eq)
      have head: "id_line_parts U (chr_backslash U # chr_i U # chr_d U # chr_space U #
                    code @ insert_spaces (chr_space U) p q rest) =
                  Some (code, insert_spaces (chr_space U) p q rest)"
        by (rule id_line_parts_normal_form[OF ok code r'])
      from IH have tail: "id_normal U (chr_i U # chr_d U # chr_space U #
          code @ insert_spaces (chr_space U) p q rest)"
        by (simp add: ins)
      show ?thesis
        unfolding out ins using head tail
        by (simp del: id_normal.simps add: id_normal.simps(2)[of U "chr_backslash U"])
    qed
  qed
qed

lemma spacing_passes_normal:
  "chars_ok U \<Longrightarrow> id_normal U t \<Longrightarrow> id_normal U (spacing_passes U t)"
  unfolding spacing_passes_eq
  by (intro insert_spaces_normal spacing_pair_1 spacing_pair_2 spacing_pair_3 spacing_pair_4)

lemma chars_ok_python: "chars_ok python_chars"
  unfolding chars_ok_def python_chars_simps
  by (auto simp: is_word_char_def is_space_def is_punct_def is_code_char_def is_letter_def
      is_upper_def is_lower_def is_digit_def backslash_def newline_def quote_def)

lemma fix_up_passes_fixed_point:
  assumes ok: "chars_ok U"
  shows "fix_up_passes U (spacing_passes U (clean_id_lines U s)) =
         spacing_passes U (clean_id_lines U s)"
proof -
  have "id_normal U (spacing_passes U (clean_id_lines U s))"
    by (rule spacing_passes_normal[OF ok clean_id_lines_normal[OF ok]])
  then have "clean_id_lines U (spacing_passes U (clean_id_lines U s)) =
             spacing_passes U (clean_id_lines U s)"
    by (rule clean_id_lines_fixed[OF ok])
  then show ?thesis
    by (simp add: fix_up_passes_def spacing_passes_idem[OF ok])
qed

lemma fix_up_example:
  "fix_up_passes python_chars
     (backslash # ''id  GEN Genesis,x'' @ newline # quote # ''a,b'' @ backslash # ''p'') =
   backslash # ''id GEN'' @ newline # quote # '' a , b '' @ backslash # ''p''"
  by code_simp

text \<open>
  Two texts with characters outside ASCII: the letter of the code point 233 is a word
  character, so that spaces are put around the full stop and before the backslash, and the
  no-break space (160) is white space, so that the line is an identifier line.
\<close>

lemma fix_up_outside_ascii:
  "fix_up_passes python_chars ([CHR 0xE9] @ ''.x '' @ [CHR 0xE9, backslash] @ ''p'') =
     [CHR 0xE9] @ '' . x '' @ [CHR 0xE9] @ '' '' @ [backslash] @ ''p''"
  "fix_up_passes python_chars (backslash # ''id'' @ [CHR 0xA0] @ ''GEN Genesis'') =
     backslash # ''id GEN''"
  by code_simp+

lemma fix_up_passes_again:
  "chars_ok U \<Longrightarrow> fix_up_passes U (fix_up_passes U s) = fix_up_passes U s"
  using fix_up_passes_fixed_point[of U s]
  by (simp only: fix_up_passes_def[of U s, symmetric])

text \<open>
  C6. The passes that follow the replacement of the words (the truncation of the identifier
  lines, then the four spacing substitutions, in the order of the source), taken as one
  function, are idempotent: applied to its own output, the function returns it unchanged.
  This holds for every text of the code points below 256 with the classes of Python, and
  for every text over any type of characters, with any classes \<open>\w\<close>, \<open>\s\<close>, \<open>[.!?;:,]\<close> and
  \<open>[A-Z0-9]\<close> and any six characters that meet \<open>chars_ok\<close>, as those of Python do on all of
  Unicode.
\<close>

theorem fix_up_passes_idempotent:
  "fix_up_passes python_chars (fix_up_passes python_chars s) = fix_up_passes python_chars s \<and>
   (chars_ok U \<longrightarrow> fix_up_passes U (fix_up_passes U t) = fix_up_passes U t)"
  using fix_up_passes_again[OF chars_ok_python, of s] fix_up_passes_again[of U t]
  by blast

text \<open>
  The theorem at the characters and classes of the program, and an identifier line followed
  by the line \<open>"a,b\p\<close>: the passes truncate the first line and insert four spaces, and
  return their own output unchanged.
\<close>

theorem fix_up_passes_idempotent_witness:
  "chars_ok python_chars \<and>
   fix_up_passes python_chars
     (backslash # ''id  GEN Genesis,x'' @ newline # quote # ''a,b'' @ backslash # ''p'') =
     backslash # ''id GEN'' @ newline # quote # '' a , b '' @ backslash # ''p'' \<and>
   fix_up_passes python_chars
     (backslash # ''id GEN'' @ newline # quote # '' a , b '' @ backslash # ''p'') =
     backslash # ''id GEN'' @ newline # quote # '' a , b '' @ backslash # ''p''"
proof -
  let ?s = "backslash # ''id  GEN Genesis,x'' @ newline # quote # ''a,b'' @ backslash # ''p''"
  let ?t = "backslash # ''id GEN'' @ newline # quote # '' a , b '' @ backslash # ''p''"
  note t = fix_up_passes_idempotent[of ?s python_chars ?s]
  from t chars_ok_python
  have "fix_up_passes python_chars (fix_up_passes python_chars ?s) =
        fix_up_passes python_chars ?s"
    by blast
  then have "fix_up_passes python_chars ?t = ?t"
    by (simp only: fix_up_example)
  with chars_ok_python fix_up_example show ?thesis by blast
qed

section \<open>The replacement of the words\<close>

lemma letter_is_word: "is_letter c \<Longrightarrow> is_word_char c"
  by (simp add: is_word_char_def)

text \<open>
  The look-behind of the word pattern never refuses a position: where the two preceding
  characters are a backslash and a letter, the word boundary already fails. A letter run
  that follows a backslash directly is therefore matched like any other word.
\<close>

lemma lookbehind_never_refuses: "content_word_matcher pre suf = word_matcher pre suf"
proof (cases "case pre of a # b # _ \<Rightarrow> is_letter a \<and> b = backslash | _ \<Rightarrow> False")
  case False
  then show ?thesis by (simp add: content_word_matcher_def)
next
  case True
  then obtain a rest where pre: "pre = a # rest" and a: "is_letter a"
    by (auto split: list.splits)
  have "word_matcher pre suf = None"
  proof (cases "takeWhile is_letter suf")
    case Nil
    then show ?thesis by (simp add: word_matcher_def)
  next
    case (Cons x xs)
    then obtain ys where "suf = x # ys" "is_letter x"
      by (cases suf) (auto split: if_splits)
    with a pre have "\<not> word_boundary pre suf"
      by (simp add: word_boundary_def letter_is_word)
    then show ?thesis by (simp add: word_matcher_def Let_def)
  qed
  with True show ?thesis by (simp add: content_word_matcher_def)
qed

text \<open>
  The two halves of \<open>replace_word\<close> that do what the specification says: a word on the line
  of the identifier tag is returned unchanged, and with \<open>preserve_caps\<close> the casing of the
  token is that of the stored form, whatever the casing of the occurrence.
\<close>

lemma replace_word_on_id_line:
  assumes "finditer id_tag_matcher (take start_pos content) \<noteq> []"
    and "newline \<notin> set (drop (snd (last (finditer id_tag_matcher (take start_pos content))))
           (take start_pos content))"
  shows "replace_word content lexicon vocabulary start_pos word = Inr word"
  using assms by (simp add: replace_word_def)

lemma replace_word_preserved:
  assumes "finditer id_tag_matcher (take start_pos content) = []"
    and "map_of lexicon (lower word) = Some replacement"
    and "map_of vocabulary (lower word) = Some info" and "preserve_caps info"
  shows "replace_word content lexicon vocabulary start_pos word =
           case_by_original (original info) replacement"
  using assms by (simp add: replace_word_def)

lemma case_by_original_cases:
  "case_by_original (c # cs) replacement =
     Inr (if isupper (c # cs) then upper (if is_upper c then capitalize replacement else replacement)
          else if is_upper c then capitalize replacement else replacement)"
  by (simp add: case_by_original_def)

text \<open>
  In the casing by the occurrence, the branch that upper-cases the whole token is never
  taken for a word of letters: a word that is entirely upper case starts with an upper-case
  letter, and the branch before it capitalizes the token.
\<close>

lemma upper_branch_dead:
  assumes "isupper word" "list_all is_letter word"
  shows "case_by_word word replacement = capitalize replacement"
proof -
  from assms(1) obtain c cs where w: "word = c # cs"
    by (cases word) (auto simp: isupper_def)
  from assms w have "is_letter c" "\<not> is_lower c"
    by (auto simp: isupper_def)
  then have "is_upper c" by (simp add: is_letter_def)
  then show ?thesis by (simp add: case_by_word_def first_isupper_def w)
qed

text \<open>
  C3 fails on the code. The claim: the replacement of the words never replaces a letter run
  that is the name of a markup tag (a run directly after a backslash). In a document with
  the word \<open>it\<close> and the tag \<open>\it\<close>, whose vocabulary therefore has \<open>it\<close>, the name of the tag
  is replaced by the token of the word, in both occurrences of the tag.
\<close>

theorem tag_name_is_replaced:
  "map fst (extract_vocabulary_from_usfm
     (backslash # ''v 1 it is '' @ backslash # ''it good'' @ backslash # ''it*'')) =
     [''it'', ''is'', ''good''] \<and>
   transform_usfm_content
     (backslash # ''v 1 it is '' @ backslash # ''it good'' @ backslash # ''it*'')
     [(''it'', ''abcd''), (''is'', ''efgh''), (''good'', ''ijkl'')]
     (extract_vocabulary_from_usfm
       (backslash # ''v 1 it is '' @ backslash # ''it good'' @ backslash # ''it*'')) =
   Inr (backslash # ''v 1 abcd efgh '' @ backslash # ''abcd ijkl '' @ backslash # ''abcd*'')"
  by code_simp

text \<open>
  C4 fails on the code. The claim: without \<open>preserve_caps\<close> the whole token is upper-cased
  when the occurrence is entirely upper case. The word \<open>A\<close> at the start of a sentence has
  no \<open>preserve_caps\<close> and is entirely upper case, and its token is only capitalized.
\<close>

theorem uppercase_occurrence_is_only_capitalized:
  "extract_vocabulary_from_usfm ''A man'' =
     [(''a'', \<lparr>original = ''a'', preserve_caps = False, count = 1\<rparr>),
      (''man'', \<lparr>original = ''man'', preserve_caps = False, count = 1\<rparr>)] \<and>
   isupper ''A'' \<and>
   replace_word ''A man'' [(''a'', ''wxyz''), (''man'', ''abcd'')]
     (extract_vocabulary_from_usfm ''A man'') 0 ''A'' = Inr ''Wxyz'' \<and>
   upper ''wxyz'' = ''WXYZ'' \<and>
   transform_usfm_content ''A man'' [(''a'', ''wxyz''), (''man'', ''abcd'')]
     (extract_vocabulary_from_usfm ''A man'') = Inr ''Wxyz abcd''"
  by code_simp

text \<open>
  C5 fails on the code. The claim: each identifier line is truncated to the tag and its
  code. In a document whose text has the word \<open>id\<close>, the name of the tag \<open>\id\<close> is replaced by
  the token of that word; the line is then no identifier line any more and keeps its text.
\<close>

theorem id_line_is_not_truncated:
  "map fst (extract_vocabulary_from_usfm
     (backslash # ''id GEN Genesis book'' @ newline # backslash # ''p id est'')) =
     [''gen'', ''genesis'', ''book'', ''id'', ''est''] \<and>
   transform_usfm_content
     (backslash # ''id GEN Genesis book'' @ newline # backslash # ''p id est'')
     [(''gen'', ''aaaa''), (''genesis'', ''bbbb''), (''book'', ''cccc''), (''id'', ''dddd''),
      (''est'', ''eeee'')]
     (extract_vocabulary_from_usfm
       (backslash # ''id GEN Genesis book'' @ newline # backslash # ''p id est'')) =
   Inr (backslash # ''dddd GEN Genesis book'' @ newline # backslash # ''p dddd eeee'')"
  by code_simp

text \<open>With no entry for \<open>id\<close> in the lexicon the line of the example is truncated.\<close>

lemma id_line_example:
  "transform_usfm_content (backslash # ''id GEN Genesis book'')
     [(''gen'', ''aaaa''), (''genesis'', ''bbbb''), (''book'', ''cccc'')] [] =
   Inr (backslash # ''id GEN'')"
  by code_simp

end
